theory Spec2Isabelle
  imports Main "HOL-Library.Word"
begin

unbundle bit_operations_syntax

section \<open>Strings and bytes\<close>

text \<open>
  A JavaScript string is a sequence of UTF-16 code units; \<open>charCodeAt\<close> reads one of
  them. A \<open>Uint8Array\<close> is a sequence of 8-bit values.
\<close>

type_synonym jsstring = "nat list"
type_synonym byte = "8 word"

definition str :: "string \<Rightarrow> jsstring" where
  "str s = map of_char s"

text \<open>
  The code units matched by the regular expression class \<open>\s\<close> and removed by
  \<open>String.prototype.trim\<close> (white space and line terminators).
\<close>

definition is_space :: "nat \<Rightarrow> bool" where
  "is_space c \<longleftrightarrow>
     c = 9 \<or> c = 10 \<or> c = 11 \<or> c = 12 \<or> c = 13 \<or> c = 32 \<or> c = 160 \<or> c = 5760 \<or>
     (8192 \<le> c \<and> c \<le> 8202) \<or> c = 8232 \<or> c = 8233 \<or> c = 8239 \<or> c = 8287 \<or>
     c = 12288 \<or> c = 65279"

definition trim :: "jsstring \<Rightarrow> jsstring" where
  "trim s = rev (dropWhile is_space (rev (dropWhile is_space s)))"

definition startsWith :: "jsstring \<Rightarrow> jsstring \<Rightarrow> bool" where
  "startsWith s p \<longleftrightarrow> take (length p) s = p"

definition endsWith :: "jsstring \<Rightarrow> jsstring \<Rightarrow> bool" where
  "endsWith s p \<longleftrightarrow> length p \<le> length s \<and> drop (length s - length p) s = p"

text \<open>\<open>charCodeAt\<close> is \<open>NaN\<close> (here \<open>None\<close>) beyond the end of the string.\<close>

definition charCodeAt :: "jsstring \<Rightarrow> nat \<Rightarrow> nat option" where
  "charCodeAt s i = (if i < length s then Some (s ! i) else None)"

text \<open>
  \<open>toLowerCase\<close> on the ASCII range. Code units outside ASCII are left unchanged: the
  Unicode case mapping is not modelled. The source lower-cases host names, media types,
  model names and settings, and tests them against ASCII literals.
\<close>

definition toLowerCase :: "jsstring \<Rightarrow> jsstring" where
  "toLowerCase s = map (\<lambda>c. if 65 \<le> c \<and> c \<le> 90 then c + 32 else c) s"

text \<open>\<open>s.indexOf(c)\<close> for a one-unit pattern; \<open>None\<close> is \<open>-1\<close>.\<close>

fun indexOf :: "jsstring \<Rightarrow> nat \<Rightarrow> nat option" where
  "indexOf [] c = None"
| "indexOf (x # xs) c = (if x = c then Some 0 else map_option Suc (indexOf xs c))"

text \<open>\<open>s.includes(p)\<close>.\<close>

fun includes_str :: "jsstring \<Rightarrow> jsstring \<Rightarrow> bool" where
  "includes_str [] p = (p = [])"
| "includes_str (x # xs) p = (startsWith (x # xs) p \<or> includes_str xs p)"

text \<open>\<open>s.split(sep)\<close> for a one-unit separator; the result is never empty.\<close>

fun split :: "jsstring \<Rightarrow> nat \<Rightarrow> jsstring list" where
  "split [] sep = [[]]"
| "split (c # cs) sep =
     (if c = sep then [] # split cs sep
      else (case split cs sep of p # ps \<Rightarrow> (c # p) # ps | [] \<Rightarrow> [[c]]))"

text \<open>\<open>s.slice(a, b)\<close> for non-negative indices (empty when \<open>b \<le> a\<close>).\<close>

definition slice :: "jsstring \<Rightarrow> nat \<Rightarrow> nat \<Rightarrow> jsstring" where
  "slice s a b = take (b - a) (drop a s)"

text \<open>\<open>parts.join(sep)\<close>.\<close>

fun join :: "jsstring list \<Rightarrow> jsstring \<Rightarrow> jsstring" where
  "join [] sep = []"
| "join [x] sep = x"
| "join (x # y # ys) sep = x @ sep @ join (y # ys) sep"

definition is_digit :: "nat \<Rightarrow> bool" where
  "is_digit c \<longleftrightarrow> 48 \<le> c \<and> c \<le> 57"

text \<open>
  A JavaScript number is a double. The integers among them are modelled by their value.
  \<open>round_double n\<close> is the double nearest to the natural number \<open>n\<close>, ties going to the
  even significand of 53 bits; it is \<open>n\<close> itself below \<open>2^53\<close>. The exponent is not
  bounded here, so that a result of \<open>2^1024\<close> or more stands for \<open>Infinity\<close>: this is
  the case exactly from \<open>2^1024 - 2^970\<close> on.
\<close>

function bit_length :: "nat \<Rightarrow> nat" where
  "bit_length n = (if n = 0 then 0 else Suc (bit_length (n div 2)))"
  by pat_completeness auto
termination
  by (relation "measure id") auto

definition round_double :: "nat \<Rightarrow> nat" where
  "round_double n =
     (let e = bit_length n - 53;
          q = n div 2 ^ e;
          r = n mod 2 ^ e
      in if 2 * r < 2 ^ e \<or> (2 * r = 2 ^ e \<and> even q) then q * 2 ^ e else (q + 1) * 2 ^ e)"

text \<open>
  \<open>Number.parseInt(s, 10)\<close>: leading white space is skipped, an optional sign is read,
  then the longest run of decimal digits, whose value is rounded to a double (the language
  standard also lets an engine read the digits after the twentieth as zeros; the engine
  of this program rounds the exact value). \<open>None\<close> is \<open>NaN\<close>. \<open>Number.isFinite\<close>
  fails on \<open>NaN\<close> and on \<open>Infinity\<close>.
\<close>

definition js_parseInt10 :: "jsstring \<Rightarrow> int option" where
  "js_parseInt10 s =
     (let t = dropWhile is_space s;
          neg = (case t of c # r \<Rightarrow> c = 45 | [] \<Rightarrow> False);
          u = (case t of c # r \<Rightarrow> if c = 45 \<or> c = 43 then r else t | [] \<Rightarrow> []);
          ds = takeWhile is_digit u
      in if ds = [] then None
         else let v = int (round_double (foldl (\<lambda>a c. 10 * a + (c - 48)) 0 ds))
              in Some (if neg then - v else v))"

definition js_isFinite :: "int option \<Rightarrow> bool" where
  "js_isFinite v = (case v of None \<Rightarrow> False | Some d \<Rightarrow> \<bar>d\<bar> < 2 ^ 1024)"

section \<open>JSON values\<close>

text \<open>
  A number that \<open>JSON.parse\<close> yields is zero, an infinity (from a literal too large for
  a double), or a finite number other than zero. The last is held by its sign and the
  integers \<open>s\<close> and \<open>n\<close> from which \<open>Number.prototype.toString\<close> prints it: \<open>s\<close>
  is the shortest run of decimal digits that identifies the number, of \<open>k\<close> digits, and
  the value is \<open>s * 10^(n - k)\<close>. So 1 is \<open>NumDecimal False 1 1\<close>, 1.5 is
  \<open>NumDecimal False 15 1\<close> and \<open>10^21\<close> is \<open>NumDecimal False 1 22\<close>.
\<close>

datatype number = NumZero | NumInfinity bool | NumDecimal bool nat int

definition number_is_zero :: "number \<Rightarrow> bool" where
  "number_is_zero x = (case x of NumZero \<Rightarrow> True | NumInfinity neg \<Rightarrow> False
                       | NumDecimal neg s n \<Rightarrow> s = 0)"

text \<open>
  The result of \<open>JSON.parse\<close>. An object is an association list read by its first
  matching key.
\<close>

datatype json =
    JNull
  | JBool bool
  | JNum number
  | JStr jsstring
  | JArr "json list"
  | JObj "(jsstring \<times> json) list"

text \<open>Property access \<open>v.k\<close> on a value that is not \<open>null\<close>; \<open>None\<close> is \<open>undefined\<close>.\<close>

definition get_prop :: "json \<Rightarrow> jsstring \<Rightarrow> json option" where
  "get_prop v k = (case v of JObj fields \<Rightarrow> map_of fields k | _ \<Rightarrow> None)"

text \<open>Optional chaining \<open>v?.k\<close>.\<close>

definition opt_prop :: "json option \<Rightarrow> jsstring \<Rightarrow> json option" where
  "opt_prop v k = (case v of None \<Rightarrow> None | Some JNull \<Rightarrow> None | Some x \<Rightarrow> get_prop x k)"

definition truthy :: "json option \<Rightarrow> bool" where
  "truthy v =
     (case v of None \<Rightarrow> False
      | Some JNull \<Rightarrow> False
      | Some (JBool b) \<Rightarrow> b
      | Some (JNum x) \<Rightarrow> \<not> number_is_zero x
      | Some (JStr s) \<Rightarrow> s \<noteq> []
      | Some (JArr xs) \<Rightarrow> True
      | Some (JObj fs) \<Rightarrow> True)"

text \<open>The decimal digits of a natural number.\<close>

function digits :: "nat \<Rightarrow> jsstring" where
  "digits n = (if n < 10 then [48 + n] else digits (n div 10) @ [48 + n mod 10])"
  by pat_completeness auto
termination
  by (relation "measure id") auto

text \<open>
  \<open>Number.prototype.toString\<close> in radix 10: plain decimal notation when
  \<open>-5 \<le> n \<le> 21\<close>, exponent notation otherwise (\<open>1e+21\<close>, \<open>1.5e-7\<close>).
\<close>

definition number_toString :: "number \<Rightarrow> jsstring" where
  "number_toString x =
     (case x of
        NumZero \<Rightarrow> str ''0''
      | NumInfinity neg \<Rightarrow> (if neg then str ''-Infinity'' else str ''Infinity'')
      | NumDecimal neg s n \<Rightarrow>
          if s = 0 then str ''0''
          else
            let ds = digits s;
                k = int (length ds);
                txt =
                  (if - 5 \<le> n \<and> n \<le> 21 then
                     (if k \<le> n then ds @ replicate (nat (n - k)) 48
                      else if 0 < n then take (nat n) ds @ [46] @ drop (nat n) ds
                      else [48, 46] @ replicate (nat (- n)) 48 @ ds)
                   else
                     (let ex = (if n < 0 then [45] else [43]) @ digits (nat \<bar>n - 1\<bar>)
                      in if k = 1 then ds @ [101] @ ex
                         else take 1 ds @ [46] @ drop 1 ds @ [101] @ ex))
            in if neg then 45 # txt else txt)"

text \<open>The string a template literal makes of a value.\<close>

fun js_toString :: "json \<Rightarrow> jsstring" where
  "js_toString JNull = str ''null''"
| "js_toString (JBool b) = (if b then str ''true'' else str ''false'')"
| "js_toString (JNum x) = number_toString x"
| "js_toString (JStr s) = s"
| "js_toString (JArr xs) =
     join (map (\<lambda>x. if x = JNull then [] else js_toString x) xs) (str '','')"
| "js_toString (JObj fs) = str ''[object Object]''"

section \<open>Errors\<close>

text \<open>
  The source throws \<open>Error\<close> objects that differ in their message; each constructor
  stands for one \<open>throw\<close> site (or a family of sites sharing a message prefix).
\<close>

datatype error =
    InvalidLength            \<comment> \<open>"Invalid base64 length"\<close>
  | InvalidCharacter         \<comment> \<open>"Invalid base64 character"\<close>
  | InvalidReference         \<comment> \<open>"Invalid image url: ..." and "Invalid data URL: missing comma"\<close>
  | UnsupportedEncoding      \<comment> \<open>"Invalid data URL: only base64-encoded data URLs are supported"\<close>
  | InvalidMediaType         \<comment> \<open>"Invalid data URL mime: ..." and "Invalid Content-Type: ..."\<close>
  | TooLarge                 \<comment> \<open>"Image too large: ..."\<close>
  | UnsupportedScheme        \<comment> \<open>"Unsupported image URL protocol: ..."\<close>
  | BlockedBySsrfPolicy      \<comment> \<open>"Blocked by SSRF protection: ..."\<close>
  | UpstreamError nat jsstring  \<comment> \<open>"Failed to fetch image (status): text"\<close>
  | TransportFailure         \<comment> \<open>the transport threw: network error, or abort when the timer fired\<close>
  | MissingReferenceImage    \<comment> \<open>"ModelScope image edit requires a reference image, ..."\<close>
  | SubmitError nat jsstring \<comment> \<open>"ModelScope Submit Error (status): text"\<close>
  | MalformedResponse        \<comment> \<open>\<open>response.json()\<close> rejected, or no task id and nothing extractable\<close>
  | JsTypeError              \<comment> \<open>a property read on \<open>null\<close>\<close>
  | UpstreamTaskFailed json  \<comment> \<open>"ModelScope Task Failed: payload"\<close>
  | PollTimeout              \<comment> \<open>"ModelScope Task Timeout"\<close>

section \<open>Codec (base64.ts)\<close>

definition BASE64_ALPHABET :: jsstring where
  "BASE64_ALPHABET = str ''ABCDEFGHIJKLMNOPQRSTUVWXYZabcdefghijklmnopqrstuvwxyz0123456789+/''"

text \<open>
  The lookup table: an \<open>Int16Array\<close> of 256 entries filled with \<open>-1\<close>, then the index of
  every alphabet symbol, then the two URL-safe symbols \<open>-\<close> (45) and \<open>_\<close> (95).
\<close>

definition BASE64_LOOKUP_table :: "int list" where
  "BASE64_LOOKUP_table =
     (fold (\<lambda>i t. t[BASE64_ALPHABET ! i := int i]) [0..<length BASE64_ALPHABET]
        (replicate 256 (- 1)))[45 := 62, 95 := 63]"

text \<open>
  Reading a typed array outside its bounds (a code unit of 256 or more, or \<open>NaN\<close>)
  yields \<open>undefined\<close>, here \<open>None\<close>.
\<close>

definition BASE64_LOOKUP :: "nat option \<Rightarrow> int option" where
  "BASE64_LOOKUP c =
     (case c of None \<Rightarrow> None
      | Some k \<Rightarrow> if k < 256 then Some (BASE64_LOOKUP_table ! k) else None)"

text \<open>
  JavaScript coercions of a possibly \<open>undefined\<close> number: \<open>undefined < 0\<close> is false,
  \<open>undefined === k\<close> is false, and the bit operators read \<open>undefined\<close> as 0.
\<close>

definition js_lt0 :: "int option \<Rightarrow> bool" where
  "js_lt0 v = (case v of None \<Rightarrow> False | Some x \<Rightarrow> x < 0)"

definition js_int32 :: "int option \<Rightarrow> int" where
  "js_int32 v = (case v of None \<Rightarrow> 0 | Some x \<Rightarrow> x)"

text \<open>
  \<open>BASE64_ALPHABET[k]\<close> as it ends up in \<open>out.join("")\<close>: an index outside the
  string gives \<open>undefined\<close>, which \<open>join\<close> renders as the empty string.
\<close>

definition alphabet_at :: "int \<Rightarrow> jsstring" where
  "alphabet_at k =
     (if 0 \<le> k \<and> nat k < length BASE64_ALPHABET then [BASE64_ALPHABET ! nat k] else [])"

fun encode_loop :: "byte list \<Rightarrow> jsstring" where
  "encode_loop [] = []"
| "encode_loop [b0] =
     (let n = uint b0 in
      alphabet_at (drop_bit 2 n AND 63) @ alphabet_at (push_bit 4 (n AND 3)) @ [61, 61])"
| "encode_loop [b0, b1] =
     (let n = push_bit 8 (uint b0) OR uint b1 in
      alphabet_at (drop_bit 10 n AND 63) @ alphabet_at (drop_bit 4 n AND 63) @
      alphabet_at (push_bit 2 (n AND 15)) @ [61])"
| "encode_loop (b0 # b1 # b2 # rest) =
     (let n = push_bit 16 (uint b0) OR push_bit 8 (uint b1) OR uint b2 in
      alphabet_at (drop_bit 18 n AND 63) @ alphabet_at (drop_bit 12 n AND 63) @
      alphabet_at (drop_bit 6 n AND 63) @ alphabet_at (n AND 63) @ encode_loop rest)"

definition encodeBase64 :: "byte list \<Rightarrow> jsstring" where
  "encodeBase64 bytes = (if length bytes = 0 then [] else encode_loop bytes)"

text \<open>
  The decoding loop. \<open>cs\<close> is \<open>padded\<close> from index \<open>i\<close> on, so \<open>i < len\<close> is
  \<open>cs \<noteq> []\<close> and \<open>i += 4\<close> is \<open>drop 4\<close>. \<open>out\<close> is the typed array allocated
  before the loop: a write at or beyond its length is ignored, as \<open>list_update\<close> does.
\<close>

function decode_loop :: "jsstring \<Rightarrow> nat \<Rightarrow> byte list \<Rightarrow> error + byte list" where
  "decode_loop cs o1 out =
     (if cs = [] then Inr out
      else
        let c0 = charCodeAt cs 0; c1 = charCodeAt cs 1;
            c2 = charCodeAt cs 2; c3 = charCodeAt cs 3;
            v0 = BASE64_LOOKUP c0;
            v1 = BASE64_LOOKUP c1;
            v2 = (if c2 = Some 61 then Some (- 2) else BASE64_LOOKUP c2);
            v3 = (if c3 = Some 61 then Some (- 2) else BASE64_LOOKUP c3)
        in
          if js_lt0 v0 \<or> js_lt0 v1 \<or> v2 = Some (- 1) \<or> v3 = Some (- 1)
          then Inl InvalidCharacter
          else
            let n = push_bit 18 (js_int32 v0) OR push_bit 12 (js_int32 v1) OR
                    push_bit 6 (js_int32 v2 AND 63) OR (js_int32 v3 AND 63);
                out1 = out[o1 := word_of_int (drop_bit 16 n AND 255)];
                o2 = o1 + 1;
                out2 = (if v2 \<noteq> Some (- 2) then out1[o2 := word_of_int (drop_bit 8 n AND 255)] else out1);
                o3 = (if v2 \<noteq> Some (- 2) then o2 + 1 else o2);
                out3 = (if v3 \<noteq> Some (- 2) then out2[o3 := word_of_int (n AND 255)] else out2);
                o4 = (if v3 \<noteq> Some (- 2) then o3 + 1 else o3)
            in decode_loop (drop 4 cs) o4 out3)"
  by pat_completeness auto
termination
  by (relation "measure (\<lambda>(cs, o1, out). length cs)") auto

definition decodeBase64 :: "jsstring \<Rightarrow> error + byte list" where
  "decodeBase64 input =
     (let cleaned = filter (\<lambda>c. \<not> is_space c) input in
      if length cleaned = 0 then Inr []
      else
        let md = length cleaned mod 4;
            padded = (if md = 0 then cleaned else cleaned @ replicate (4 - md) 61)
        in
          if length padded mod 4 \<noteq> 0 then Inl InvalidLength
          else
            let len = length padded;
                padding = (if endsWith padded (str ''=='') then 2
                           else if endsWith padded (str ''='') then 1 else 0);
                outLen = (len div 4) * 3 - padding
            in decode_loop padded 0 (replicate outLen 0))"

section \<open>The transport and its observable effects\<close>

text \<open>
  What a body stream yields to successive \<open>reader.read()\<close> calls: a chunk (the value may be
  missing), or a rejection; after the last event the stream reports \<open>done\<close>.
\<close>

datatype read_event = Chunk "byte list option" | ReadFails

record response =
  status :: nat
  resp_text :: "jsstring option"            \<comment> \<open>\<open>resp.text()\<close>; \<open>None\<close> when it rejects\<close>
  resp_json :: "json option"                \<comment> \<open>\<open>resp.json()\<close>; \<open>None\<close> when it rejects\<close>
  content_type :: "jsstring option"         \<comment> \<open>\<open>headers.get("content-type")\<close>\<close>
  content_length :: "jsstring option"       \<comment> \<open>\<open>headers.get("content-length")\<close>\<close>
  body :: "read_event list option"          \<comment> \<open>\<open>resp.body\<close>; \<open>None\<close> is \<open>null\<close>\<close>

text \<open>\<open>Response.ok\<close> is true exactly for the status codes 200 to 299.\<close>

definition ok :: "response \<Rightarrow> bool" where
  "ok r \<longleftrightarrow> 200 \<le> status r \<and> status r \<le> 299"

datatype form_value = FText jsstring | FFile "byte list" jsstring jsstring

datatype req_body = NoBody | JsonBody json | FormBody "(jsstring \<times> form_value) list"

record request =
  req_method :: jsstring
  req_url :: jsstring
  req_headers :: "(jsstring \<times> jsstring) list"
  req_body :: req_body

datatype fetch_outcome = Throws | Responds response

text \<open>
  The transport (\<open>fetch\<close>, or the injected \<open>fetchFn\<close>) answers the \<open>n\<close>-th network call
  of a run. The world is the trace of what a run did, in order: a request sent, a delay
  slept through, one \<open>reader.read()\<close>, one \<open>reader.cancel()\<close>, one \<open>resp.text()\<close> and
  one \<open>resp.json()\<close> (the last two consume the whole body). Timers are not run: a time
  budget that expires shows up as \<open>Throws\<close> or \<open>ReadFails\<close>.
\<close>

type_synonym transport = "nat \<Rightarrow> request \<Rightarrow> fetch_outcome"

datatype event =
    Call request
  | Sleep nat
  | Read
  | Cancel
  | TextRead
  | JsonRead

type_synonym world = "event list"

text \<open>The requests sent so far.\<close>

fun calls :: "world \<Rightarrow> request list" where
  "calls [] = []"
| "calls (Call r # w) = r # calls w"
| "calls (ev # w) = calls w"

definition fetchWithTimeout :: "transport \<Rightarrow> request \<Rightarrow> world \<Rightarrow> fetch_outcome \<times> world" where
  "fetchWithTimeout t r w = (t (length (calls w)) r, w @ [Call r])"

section \<open>Image resolver (unnamed/part_000)\<close>

record ResolveImageOptions =
  timeoutMs :: "int option"
  maxBytes :: "int option"
  allowPrivateNetwork :: "bool option"

record ResolvedImage =
  url :: jsstring
  mime :: jsstring
  bytes :: "byte list"
  base64 :: jsstring
  dataUrl :: jsstring
  size' :: nat

text \<open>The fields of a \<open>URL\<close> object that the resolver reads.\<close>

record parsed_url =
  protocol :: jsstring
  hostname :: jsstring
  href :: jsstring

definition isDataUrl :: "jsstring \<Rightarrow> bool" where
  "isDataUrl u = startsWith u (str ''data:'')"

definition normalizeMime :: "jsstring option \<Rightarrow> jsstring option" where
  "normalizeMime m =
     (case m of None \<Rightarrow> None
      | Some s \<Rightarrow>
          if s = [] then None
          else Some (toLowerCase (trim (case indexOf s 59 of Some semi \<Rightarrow> slice s 0 semi
                                        | None \<Rightarrow> s))))"

text \<open>The regular expression \<open>^\d{1,3}(\.\d{1,3}){3}$\<close>.\<close>

definition isLikelyIpV4 :: "jsstring \<Rightarrow> bool" where
  "isLikelyIpV4 host =
     (let parts = split host 46
      in length parts = 4 \<and>
         list_all (\<lambda>p. 1 \<le> length p \<and> length p \<le> 3 \<and> list_all is_digit p) parts)"

definition parseIpv4 :: "jsstring \<Rightarrow> int option list option" where
  "parseIpv4 host =
     (if \<not> isLikelyIpV4 host then None
      else let parts = map js_parseInt10 (split host 46)
           in if length parts \<noteq> 4 then None
              else if list_ex (\<lambda>n. \<not> js_isFinite n \<or>
                                   (case n of Some v \<Rightarrow> v < 0 \<or> v > 255 | None \<Rightarrow> False)) parts
                   then None
                   else Some parts)"

definition isPrivateIp :: "jsstring \<Rightarrow> bool" where
  "isPrivateIp host =
     (let h = toLowerCase host in
      if h = str ''localhost'' \<or> endsWith h (str ''.localhost'') then True
      else if h = str ''0.0.0.0'' then True
      else if h = str ''::1'' then True
      else
        case parseIpv4 h of
          Some ipv4 \<Rightarrow>
            (case ipv4 of
               a # b # rest \<Rightarrow>
                 if a = Some 127 then True
                 else if a = Some 10 then True
                 else if a = Some 192 \<and> b = Some 168 then True
                 else if a = Some 172 \<and> (case b of Some v \<Rightarrow> 16 \<le> v \<and> v \<le> 31 | None \<Rightarrow> False)
                   then True
                 else if a = Some 169 \<and> b = Some 254 then True
                 else False
             | _ \<Rightarrow> False)
        | None \<Rightarrow>
            if 58 \<in> set h then
              (let noZone = (case split h 37 of p # ps \<Rightarrow> p | [] \<Rightarrow> h) in
               if noZone = str ''::1'' then True
               else if startsWith noZone (str ''fc'') \<or> startsWith noZone (str ''fd'') then True
               else if startsWith noZone (str ''fe80:'') \<or> startsWith noZone (str ''fe80::'')
                 then True
               else False)
            else False)"

definition assertAllowedRemoteUrl :: "parsed_url \<Rightarrow> bool \<Rightarrow> error + unit" where
  "assertAllowedRemoteUrl u allowPrivate =
     (let proto = toLowerCase (protocol u) in
      if proto \<noteq> str ''http:'' \<and> proto \<noteq> str ''https:'' then Inl UnsupportedScheme
      else if \<not> allowPrivate \<and> isPrivateIp (hostname u) then Inl BlockedBySsrfPolicy
      else Inr ())"

definition parseDataUrlToBytes :: "jsstring \<Rightarrow> error + (jsstring \<times> byte list)" where
  "parseDataUrlToBytes d =
     (case indexOf d 44 of
        None \<Rightarrow> Inl InvalidReference
      | Some comma \<Rightarrow>
          let meta = slice d 5 comma;
              payload = drop (comma + 1) d;
              metaParts = split meta 59;
              first = (case metaParts of p # ps \<Rightarrow> p | [] \<Rightarrow> []);
              m = (case normalizeMime (Some first) of
                     Some n \<Rightarrow> if n = [] then str ''application/octet-stream'' else n
                   | None \<Rightarrow> str ''application/octet-stream'');
              isBase64 = (str ''base64'' \<in> set (map (\<lambda>p. toLowerCase (trim p)) metaParts))
          in if \<not> isBase64 then Inl UnsupportedEncoding
             else if \<not> startsWith m (str ''image/'') then Inl InvalidMediaType
             else (case decodeBase64 payload of
                     Inl e \<Rightarrow> Inl e
                   | Inr bs \<Rightarrow> Inr (m, bs)))"

text \<open>
  The \<open>while (true)\<close> loop of \<open>readResponseBytesWithLimit\<close> over the events the stream
  still holds; it ends at the latest when the stream is done.
\<close>

fun read_loop ::
  "read_event list \<Rightarrow> int \<Rightarrow> nat \<Rightarrow> byte list list \<Rightarrow> world \<Rightarrow> (error + byte list list) \<times> world"
where
  "read_loop [] limit total' chunks w = (Inr chunks, w @ [Read])"
| "read_loop (ReadFails # evs) limit total' chunks w = (Inl TransportFailure, w @ [Read])"
| "read_loop (Chunk None # evs) limit total' chunks w =
     read_loop evs limit total' chunks (w @ [Read])"
| "read_loop (Chunk (Some v) # evs) limit total' chunks w =
     (if int (total' + length v) > limit
      then (Inl TooLarge, w @ [Read, Cancel])
      else read_loop evs limit (total' + length v) (chunks @ [v]) (w @ [Read]))"

text \<open>
  The test on the declared length that precedes the body read:
  \<open>if (lenHeader) { ... if (Number.isFinite(declared) && declared > maxBytes) throw ... }\<close>.
\<close>

definition declares_too_large :: "response \<Rightarrow> int \<Rightarrow> bool" where
  "declares_too_large resp limit =
     (case content_length resp of
        None \<Rightarrow> False
      | Some lenHeader \<Rightarrow>
          lenHeader \<noteq> [] \<and>
          (let declared = js_parseInt10 lenHeader
           in js_isFinite declared \<and> (case declared of Some d \<Rightarrow> d > limit | None \<Rightarrow> False)))"

text \<open>
  The chunks are copied one after the other into an array of \<open>total\<close> bytes, the sum of
  their lengths: their concatenation.
\<close>

definition readResponseBytesWithLimit ::
  "response \<Rightarrow> int \<Rightarrow> world \<Rightarrow> (error + byte list) \<times> world"
where
  "readResponseBytesWithLimit resp limit w =
     (if declares_too_large resp limit then (Inl TooLarge, w)
      else
        case body resp of
          None \<Rightarrow> (Inr [], w)
        | Some evs \<Rightarrow>
            (case read_loop evs limit 0 [] w of
               (Inl e, w') \<Rightarrow> (Inl e, w')
             | (Inr chunks, w') \<Rightarrow> (Inr (concat chunks), w')))"

text \<open>
  \<open>resolveImage\<close>. \<open>parse\<close> stands for the platform's \<open>new URL(url)\<close> (\<open>None\<close> when it
  throws) and \<open>t\<close> for \<open>options.fetchFn ?? fetch\<close>. The argument is any value, since the
  function checks \<open>typeof url\<close> itself.
\<close>

definition resolveImage ::
  "(jsstring \<Rightarrow> parsed_url option) \<Rightarrow> transport \<Rightarrow> json \<Rightarrow> 'a ResolveImageOptions_scheme \<Rightarrow> world
     \<Rightarrow> (error + ResolvedImage) \<times> world"
where
  "resolveImage parse t u options w =
     (let limit = (case maxBytes options of Some m \<Rightarrow> m | None \<Rightarrow> 10 * 1024 * 1024);
          allowPrivate = (case allowPrivateNetwork options of Some b \<Rightarrow> b | None \<Rightarrow> False)
      in
        case u of
          JStr s \<Rightarrow>
            if trim s = [] then (Inl InvalidReference, w)
            else if isDataUrl s then
              (case parseDataUrlToBytes s of
                 Inl e \<Rightarrow> (Inl e, w)
               | Inr (m, bs) \<Rightarrow>
                   if int (length bs) > limit then (Inl TooLarge, w)
                   else
                     let b64 = encodeBase64 bs
                     in (Inr \<lparr>url = s, mime = m, bytes = bs, base64 = b64,
                               dataUrl = str ''data:'' @ m @ str '';base64,'' @ b64,
                               size' = length bs\<rparr>, w))
            else
              (case parse s of
                 None \<Rightarrow> (Inl InvalidReference, w)
               | Some parsed \<Rightarrow>
                   (case assertAllowedRemoteUrl parsed allowPrivate of
                      Inl e \<Rightarrow> (Inl e, w)
                    | Inr _ \<Rightarrow>
                        (case fetchWithTimeout t
                                \<lparr>req_method = str ''GET'', req_url = href parsed,
                                 req_headers = [(str ''Accept'', str ''image/*'')],
                                 req_body = NoBody\<rparr> w of
                           (Throws, w1) \<Rightarrow> (Inl TransportFailure, w1)
                         | (Responds resp, w1) \<Rightarrow>
                             if \<not> ok resp then
                               (Inl (UpstreamError (status resp)
                                       (case resp_text resp of Some tx \<Rightarrow> tx | None \<Rightarrow> [])),
                                w1 @ [TextRead])
                             else
                               (case normalizeMime (content_type resp) of
                                  None \<Rightarrow> (Inl InvalidMediaType, w1)
                                | Some ct \<Rightarrow>
                                    if ct = [] \<or> \<not> startsWith ct (str ''image/'')
                                    then (Inl InvalidMediaType, w1)
                                    else
                                      (case readResponseBytesWithLimit resp limit w1 of
                                         (Inl e, w2) \<Rightarrow> (Inl e, w2)
                                       | (Inr bs, w2) \<Rightarrow>
                                           let b64 = encodeBase64 bs
                                           in (Inr \<lparr>url = s, mime = ct, bytes = bs, base64 = b64,
                                                     dataUrl = str ''data:'' @ ct @ str '';base64,'' @ b64,
                                                     size' = length bs\<rparr>, w2))))))
        | _ \<Rightarrow> (Inl InvalidReference, w))"

section \<open>Preparing caller images (image_input.ts)\<close>

datatype ImageInputMode = Passthrough | FetchToBase64

datatype ImageBase64Format = DataUrlFormat | RawBase64Format

record PrepareImagesOptions = ResolveImageOptions +
  mode :: ImageInputMode
  base64Format :: "ImageBase64Format option"

text \<open>The \<open>for ... of\<close> loop of the fetching mode; a rejected \<open>resolveImage\<close> ends it.\<close>

fun prepare_loop ::
  "(jsstring \<Rightarrow> parsed_url option) \<Rightarrow> transport \<Rightarrow> PrepareImagesOptions \<Rightarrow> json list
     \<Rightarrow> jsstring list \<Rightarrow> world \<Rightarrow> (error + jsstring list) \<times> world"
where
  "prepare_loop parse t options [] out w = (Inr out, w)"
| "prepare_loop parse t options (u # us) out w =
     (if (case u of JStr s \<Rightarrow> trim s = [] | _ \<Rightarrow> True)
      then prepare_loop parse t options us out w
      else
        case resolveImage parse t u options w of
          (Inl e, w1) \<Rightarrow> (Inl e, w1)
        | (Inr resolved, w1) \<Rightarrow>
            prepare_loop parse t options us
              (out @ [if (case base64Format options of Some f \<Rightarrow> f | None \<Rightarrow> DataUrlFormat)
                         = RawBase64Format
                      then base64 resolved else dataUrl resolved]) w1)"

definition prepareImagesForUpstream ::
  "(jsstring \<Rightarrow> parsed_url option) \<Rightarrow> transport \<Rightarrow> json \<Rightarrow> PrepareImagesOptions \<Rightarrow> world
     \<Rightarrow> (error + jsstring list) \<times> world"
where
  "prepareImagesForUpstream parse t imageUrls options w =
     (case imageUrls of
        JArr us \<Rightarrow>
          if length us = 0 then (Inr [], w)
          else if mode options = Passthrough then
            (Inr (List.map_filter
                    (\<lambda>u. case u of JStr s \<Rightarrow> if trim s \<noteq> [] then Some s else None | _ \<Rightarrow> None) us), w)
          else prepare_loop parse t options us [] w
      | _ \<Rightarrow> (Inr [], w))"

section \<open>Task orchestrator (unnamed/part_001)\<close>

text \<open>The process environment and the constants of \<open>config.ts\<close> are parameters.\<close>

type_synonym env = "jsstring \<Rightarrow> jsstring option"

record ModelScopeConfig =
  apiUrl :: jsstring
  defaultModel :: jsstring
  supportedModels :: "jsstring list"

record NormalizedChatRequest =
  model :: "jsstring option"
  size_opt :: "jsstring option"

definition getEnvInt :: "env \<Rightarrow> jsstring \<Rightarrow> int \<Rightarrow> int" where
  "getEnvInt e name fallback =
     (let raw = e name;
          n = js_parseInt10 (trim (case raw of Some r \<Rightarrow> r | None \<Rightarrow> []))
      in if js_isFinite n then (case n of Some v \<Rightarrow> v | None \<Rightarrow> fallback) else fallback)"

definition getEnvBool :: "env \<Rightarrow> jsstring \<Rightarrow> bool \<Rightarrow> bool" where
  "getEnvBool e name fallback =
     (let raw = toLowerCase (trim (case e name of Some r \<Rightarrow> r | None \<Rightarrow> [])) in
      if raw = [] then fallback
      else if raw = str ''1'' \<or> raw = str ''true'' \<or> raw = str ''yes'' \<or> raw = str ''on'' then True
      else if raw = str ''0'' \<or> raw = str ''false'' \<or> raw = str ''no'' \<or> raw = str ''off'' then False
      else fallback)"

definition enforceSupportedModels :: "env \<Rightarrow> bool" where
  "enforceSupportedModels e = getEnvBool e (str ''ENFORCE_SUPPORTED_MODELS'') False"

text \<open>An entry of the extraction output: \<open>{ url?, b64_json? }\<close>.\<close>

record extracted =
  ext_url :: "jsstring option"
  b64_json :: "jsstring option"

definition string_prop :: "json \<Rightarrow> jsstring \<Rightarrow> jsstring option" where
  "string_prop v k = (case get_prop v k of Some (JStr s) \<Rightarrow> Some s | _ \<Rightarrow> None)"

text \<open>\<open>pushAny\<close> returns what it appends to \<open>out\<close>.\<close>

definition pushAny :: "json option \<Rightarrow> extracted list" where
  "pushAny v =
     (if \<not> truthy v then []
      else
        case v of
          Some (JStr s) \<Rightarrow>
            if startsWith s (str ''data:'') then [\<lparr>ext_url = None, b64_json = Some s\<rparr>]
            else [\<lparr>ext_url = Some s, b64_json = None\<rparr>]
        | Some (JNum n) \<Rightarrow> []
        | Some (JBool b) \<Rightarrow> []
        | Some x \<Rightarrow>
            let u = string_prop x (str ''url'');
                b64 = (case string_prop x (str ''b64_json'') of
                         Some s \<Rightarrow> Some s
                       | None \<Rightarrow> string_prop x (str ''base64''))
            in if (case u of Some s \<Rightarrow> s \<noteq> [] | None \<Rightarrow> False) \<or>
                  (case b64 of Some s \<Rightarrow> s \<noteq> [] | None \<Rightarrow> False)
               then [\<lparr>ext_url = u, b64_json = b64\<rparr>] else []
        | None \<Rightarrow> [])"

definition tryArray :: "json option \<Rightarrow> extracted list" where
  "tryArray arr = (case arr of Some (JArr xs) \<Rightarrow> concat (map (\<lambda>it. pushAny (Some it)) xs) | _ \<Rightarrow> [])"

definition keep_extracted :: "extracted \<Rightarrow> bool" where
  "keep_extracted x \<longleftrightarrow>
     (case ext_url x of Some s \<Rightarrow> trim s \<noteq> [] | None \<Rightarrow> False) \<or>
     (case b64_json x of Some s \<Rightarrow> trim s \<noteq> [] | None \<Rightarrow> False)"

definition extractImages :: "json option \<Rightarrow> extracted list" where
  "extractImages payload =
     filter keep_extracted
       (tryArray (opt_prop payload (str ''output_images'')) @
        tryArray (opt_prop (opt_prop payload (str ''output'')) (str ''output_images'')) @
        tryArray (opt_prop (opt_prop payload (str ''output'')) (str ''images'')) @
        tryArray (opt_prop payload (str ''output_images'')) @
        tryArray (opt_prop payload (str ''images'')) @
        tryArray (opt_prop payload (str ''data'')) @
        pushAny (opt_prop payload (str ''output_image'')) @
        pushAny (opt_prop (opt_prop payload (str ''output'')) (str ''output_image'')) @
        pushAny (opt_prop (opt_prop payload (str ''output'')) (str ''image'')))"

definition toMarkdown :: "extracted \<Rightarrow> jsstring" where
  "toMarkdown img =
     (case ext_url img of
        Some u \<Rightarrow>
          if u \<noteq> [] then str ''![Generated Image]('' @ u @ str '')''
          else (case b64_json img of
                  Some b \<Rightarrow>
                    if b \<noteq> [] then
                      str ''![Generated Image]('' @
                      (if startsWith b (str ''data:'') then b else str ''data:image/png;base64,'' @ b) @
                      str '')''
                    else []
                | None \<Rightarrow> [])
      | None \<Rightarrow>
          (case b64_json img of
             Some b \<Rightarrow>
               if b \<noteq> [] then
                 str ''![Generated Image]('' @
                 (if startsWith b (str ''data:'') then b else str ''data:image/png;base64,'' @ b) @
                 str '')''
               else []
           | None \<Rightarrow> []))"

text \<open>
  \<open>imageData.map(toMarkdown).filter(Boolean).join("\n\n") || "..."\<close>; the fallback text
  is given by its code units.
\<close>

definition render_result :: "extracted list \<Rightarrow> jsstring" where
  "render_result imageData =
     (let r = join (filter (\<lambda>s. s \<noteq> []) (map toMarkdown imageData)) [10, 10]
      in if r \<noteq> [] then r else [22270, 29255, 29983, 25104, 22833, 36133])"

definition maxAttempts :: nat where
  "maxAttempts = 60"

text \<open>
  The polling loop \<open>for (let i = 0; i < maxAttempts; i++)\<close>, from iteration \<open>i\<close> on.
  Logging is left out.
\<close>

function poll_loop ::
  "ModelScopeConfig \<Rightarrow> env \<Rightarrow> transport \<Rightarrow> jsstring \<Rightarrow> json \<Rightarrow> nat \<Rightarrow> world
     \<Rightarrow> (error + jsstring) \<times> world"
where
  "poll_loop cfg e t apiKey taskId i w =
     (if i < maxAttempts then
        let w1 = w @ [Sleep 5000];
            configuredTaskType =
              trim (case e (str ''MODELSCOPE_TASK_TYPE'') of Some v \<Rightarrow> v
                    | None \<Rightarrow> str ''image_generation'');
            baseHeaders = [(str ''Authorization'', str ''Bearer '' @ apiKey)];
            headersWithType =
              (if configuredTaskType \<noteq> []
               then baseHeaders @ [(str ''X-ModelScope-Task-Type'', configuredTaskType)]
               else baseHeaders);
            taskUrl = apiUrl cfg @ str ''/tasks/'' @ js_toString taskId
        in
          case fetchWithTimeout t
                 \<lparr>req_method = str ''GET'', req_url = taskUrl, req_headers = headersWithType,
                  req_body = NoBody\<rparr> w1 of
            (Throws, w2) \<Rightarrow> (Inl TransportFailure, w2)
          | (Responds first, w2) \<Rightarrow>
              (case (if \<not> ok first \<and> configuredTaskType \<noteq> []
                     then fetchWithTimeout t
                            \<lparr>req_method = str ''GET'', req_url = taskUrl,
                             req_headers = baseHeaders, req_body = NoBody\<rparr> w2
                     else (Responds first, w2)) of
                 (Throws, w3) \<Rightarrow> (Inl TransportFailure, w3)
               | (Responds checkResponse, w3) \<Rightarrow>
                   if \<not> ok checkResponse then poll_loop cfg e t apiKey taskId (i + 1) w3
                   else
                     (let w4 = w3 @ [JsonRead] in
                      case resp_json checkResponse of
                        None \<Rightarrow> (Inl MalformedResponse, w4)
                      | Some JNull \<Rightarrow> (Inl JsTypeError, w4)
                      | Some checkData \<Rightarrow>
                          let st = get_prop checkData (str ''task_status'') in
                          if st = Some (JStr (str ''SUCCEED''))
                          then (Inr (render_result (extractImages (Some checkData))), w4)
                          else if st = Some (JStr (str ''FAILED''))
                          then (Inl (UpstreamTaskFailed checkData), w4)
                          else poll_loop cfg e t apiKey taskId (i + 1) w4))
      else (Inl PollTimeout, w))"
  by pat_completeness auto
termination
  by (relation "measure (\<lambda>(cfg, e, t, apiKey, taskId, i, w). maxAttempts - i)") auto

definition guessExt :: "jsstring \<Rightarrow> jsstring" where
  "guessExt m =
     (if m = str ''image/png'' then str ''png''
      else if m = str ''image/jpeg'' then str ''jpg''
      else if m = str ''image/webp'' then str ''webp''
      else if m = str ''image/gif'' then str ''gif''
      else str ''png'')"

text \<open>The model the request is sent for, and whether it is an image-edit model.\<close>

definition selectModel :: "ModelScopeConfig \<Rightarrow> env \<Rightarrow> NormalizedChatRequest \<Rightarrow> jsstring" where
  "selectModel cfg e reqBody =
     (case map_option trim (model reqBody) of
        Some requestedModel \<Rightarrow>
          if requestedModel \<noteq> [] then
            (if \<not> enforceSupportedModels e \<or> requestedModel \<in> set (supportedModels cfg)
             then requestedModel else defaultModel cfg)
          else defaultModel cfg
      | None \<Rightarrow> defaultModel cfg)"

definition isImageEditModel :: "jsstring \<Rightarrow> bool" where
  "isImageEditModel mdl = includes_str (toLowerCase mdl) (str ''image-edit'')"

text \<open>
  \<open>handleModelScope\<close> up to the submission response (the block that assigns
  \<open>submitResponse\<close>), then the rest of the function.
\<close>

definition submit ::
  "ModelScopeConfig \<Rightarrow> env \<Rightarrow> (jsstring \<Rightarrow> parsed_url option) \<Rightarrow> transport \<Rightarrow> jsstring
     \<Rightarrow> NormalizedChatRequest \<Rightarrow> jsstring \<Rightarrow> jsstring list \<Rightarrow> world \<Rightarrow> (error + response) \<times> world"
where
  "submit cfg e parse t apiKey reqBody prompt images w =
     (let mdl = selectModel cfg e reqBody;
          sz = (case size_opt reqBody of
                  Some s \<Rightarrow> if s \<noteq> [] then s else str ''2048x2048''
                | None \<Rightarrow> str ''2048x2048'');
          imageFetchTimeoutMs = getEnvInt e (str ''IMAGE_FETCH_TIMEOUT_MS'') 10000;
          maxImageBytes = getEnvInt e (str ''MAX_IMAGE_BYTES'') (10 * 1024 * 1024);
          allowPrivateImageFetch = getEnvBool e (str ''ALLOW_PRIVATE_IMAGE_FETCH'') False;
          submitUrl = (if isImageEditModel mdl then apiUrl cfg @ str ''/images/edits''
                       else apiUrl cfg @ str ''/images/generations'');
          submitHeaders = [(str ''Authorization'', str ''Bearer '' @ apiKey),
                           (str ''X-ModelScope-Async-Mode'', str ''true'')];
          promptText = (if prompt \<noteq> [] then prompt else str ''A beautiful scenery'')
      in
        if isImageEditModel mdl then
          (case images of
             [] \<Rightarrow> (Inl MissingReferenceImage, w)
           | img # others \<Rightarrow>
               (case resolveImage parse t (JStr img)
                       \<lparr>timeoutMs = Some imageFetchTimeoutMs, maxBytes = Some maxImageBytes,
                        allowPrivateNetwork = Some allowPrivateImageFetch\<rparr> w of
                  (Inl err, w1) \<Rightarrow> (Inl err, w1)
                | (Inr resolved, w1) \<Rightarrow>
                    let field = trim (case e (str ''MODELSCOPE_IMAGE_UPLOAD_FIELD'') of
                                        Some v \<Rightarrow> v | None \<Rightarrow> str ''image'');
                        imageField = (if field \<noteq> [] then field else str ''image'');
                        form = [(str ''model'', FText mdl),
                                (str ''prompt'', FText promptText),
                                (str ''n'', FText (str ''1'')),
                                (str ''size'', FText sz),
                                (str ''response_format'', FText (str ''url'')),
                                (imageField, FFile (bytes resolved) (mime resolved)
                                               (str ''image.'' @ guessExt (mime resolved)))]
                    in (case fetchWithTimeout t
                               \<lparr>req_method = str ''POST'', req_url = submitUrl,
                                req_headers = submitHeaders, req_body = FormBody form\<rparr> w1 of
                          (Throws, w2) \<Rightarrow> (Inl TransportFailure, w2)
                        | (Responds r, w2) \<Rightarrow> (Inr r, w2))))
        else
          (case fetchWithTimeout t
                  \<lparr>req_method = str ''POST'', req_url = submitUrl,
                   req_headers = submitHeaders @ [(str ''Content-Type'', str ''application/json'')],
                   req_body = JsonBody (JObj
                     ([(str ''model'', JStr mdl), (str ''prompt'', JStr promptText)] @
                      (case images of [] \<Rightarrow> [] | img # others \<Rightarrow> [(str ''image'', JStr img)]) @
                      [(str ''response_format'', JStr (str ''url'')), (str ''size'', JStr sz),
                       (str ''n'', JNum (NumDecimal False 1 1))]))\<rparr> w of
             (Throws, w2) \<Rightarrow> (Inl TransportFailure, w2)
           | (Responds r, w2) \<Rightarrow> (Inr r, w2)))"

definition handleModelScope ::
  "ModelScopeConfig \<Rightarrow> env \<Rightarrow> (jsstring \<Rightarrow> parsed_url option) \<Rightarrow> transport \<Rightarrow> jsstring
     \<Rightarrow> NormalizedChatRequest \<Rightarrow> jsstring \<Rightarrow> jsstring list \<Rightarrow> world \<Rightarrow> (error + jsstring) \<times> world"
where
  "handleModelScope cfg e parse t apiKey reqBody prompt images w =
     (case submit cfg e parse t apiKey reqBody prompt images w of
        (Inl err, w1) \<Rightarrow> (Inl err, w1)
      | (Inr submitResponse, w1) \<Rightarrow>
          if \<not> ok submitResponse then
            (case resp_text submitResponse of
               None \<Rightarrow> (Inl TransportFailure, w1 @ [TextRead])
             | Some errorText \<Rightarrow>
                 (Inl (SubmitError (status submitResponse) errorText), w1 @ [TextRead]))
          else
            (let w2 = w1 @ [JsonRead] in
             case resp_json submitResponse of
               None \<Rightarrow> (Inl MalformedResponse, w2)
             | Some JNull \<Rightarrow> (Inl JsTypeError, w2)
             | Some submitData \<Rightarrow>
                 (case get_prop submitData (str ''task_id'') of
                    None \<Rightarrow>
                      (let imageData = extractImages (Some submitData) in
                       if length imageData > 0 then (Inr (render_result imageData), w2)
                       else (Inl MalformedResponse, w2))
                  | Some taskId \<Rightarrow>
                      if \<not> truthy (Some taskId) then
                        (let imageData = extractImages (Some submitData) in
                         if length imageData > 0 then (Inr (render_result imageData), w2)
                         else (Inl MalformedResponse, w2))
                      else poll_loop cfg e t apiKey taskId 0 w2)))"

section \<open>Notions used in the statements\<close>

subsection \<open>Codec\<close>

text \<open>The lookup table and the alphabet in closed form.\<close>

definition lookup_spec :: "nat \<Rightarrow> int" where
  "lookup_spec c =
     (if 65 \<le> c \<and> c \<le> 90 then int c - 65
      else if 97 \<le> c \<and> c \<le> 122 then int c - 71
      else if 48 \<le> c \<and> c \<le> 57 then int c + 4
      else if c = 43 \<or> c = 45 then 62
      else if c = 47 \<or> c = 95 then 63
      else - 1)"

definition sym :: "nat \<Rightarrow> nat" where
  "sym k = (if k < 26 then k + 65 else if k < 52 then k + 71 else if k < 62 then k - 4
            else if k = 62 then 43 else 47)"

text \<open>The 24-bit and 16-bit groups that \<open>encode_loop\<close> builds.\<close>

definition pack3 :: "byte \<Rightarrow> byte \<Rightarrow> byte \<Rightarrow> int" where
  "pack3 b0 b1 b2 = push_bit 16 (uint b0) OR push_bit 8 (uint b1) OR uint b2"

definition pack2 :: "byte \<Rightarrow> byte \<Rightarrow> int" where
  "pack2 b0 b1 = push_bit 8 (uint b0) OR uint b1"

text \<open>The array \<open>out\<close> after the bytes \<open>bs\<close> were written from index \<open>o1\<close> on.\<close>

definition write_at :: "byte list \<Rightarrow> nat \<Rightarrow> byte list \<Rightarrow> byte list" where
  "write_at out o1 bs = take o1 out @ bs @ drop (o1 + length bs) out"

text \<open>The values of \<open>cleaned\<close>, \<open>padded\<close> and \<open>padding\<close> in \<open>decodeBase64\<close>.\<close>

definition cleaned_of :: "jsstring \<Rightarrow> jsstring" where
  "cleaned_of input = filter (\<lambda>c. \<not> is_space c) input"

definition padded_of :: "jsstring \<Rightarrow> jsstring" where
  "padded_of input =
     (if length (cleaned_of input) mod 4 = 0 then cleaned_of input
      else cleaned_of input @ replicate (4 - length (cleaned_of input) mod 4) 61)"

definition padding_of :: "jsstring \<Rightarrow> nat" where
  "padding_of padded = (if endsWith padded (str ''=='') then 2
                        else if endsWith padded (str ''='') then 1 else 0)"

text \<open>
  Index \<open>i\<close> of the padded input holds a code unit that makes its group fail the
  check of \<open>decode_loop\<close>.
\<close>

definition bad_at :: "jsstring \<Rightarrow> nat \<Rightarrow> bool" where
  "bad_at cs i =
     (if i mod 4 < 2 then js_lt0 (BASE64_LOOKUP (Some (cs ! i)))
      else cs ! i \<noteq> 61 \<and> BASE64_LOOKUP (Some (cs ! i)) = Some (- 1))"

subsection \<open>Bounded fetcher\<close>

text \<open>
  The request that \<open>resolveImage\<close> sends for a parsed URL, the byte ceiling in force, a
  response that gets as far as the body read (status 200 to 299 and a media type that
  starts with \<open>image/\<close>), the bytes that one \<open>read()\<close> adds to the running total, and
  the number that a run of decimal digits denotes.
\<close>

definition image_request :: "parsed_url \<Rightarrow> request" where
  "image_request u =
     \<lparr>req_method = str ''GET'', req_url = href u,
      req_headers = [(str ''Accept'', str ''image/*'')], req_body = NoBody\<rparr>"

definition byte_ceiling :: "'a ResolveImageOptions_scheme \<Rightarrow> int" where
  "byte_ceiling options = (case maxBytes options of Some m \<Rightarrow> m | None \<Rightarrow> 10 * 1024 * 1024)"

definition image_response :: "response \<Rightarrow> bool" where
  "image_response resp \<longleftrightarrow>
     ok resp \<and>
     (case normalizeMime (content_type resp) of
        Some ct \<Rightarrow> startsWith ct (str ''image/'')
      | None \<Rightarrow> False)"

definition chunk_size :: "byte list option \<Rightarrow> nat" where
  "chunk_size v = (case v of None \<Rightarrow> 0 | Some b \<Rightarrow> length b)"

fun decimal :: "jsstring \<Rightarrow> nat" where
  "decimal [] = 0"
| "decimal (c # cs) = (c - 48) * 10 ^ length cs + decimal cs"

subsection \<open>Caller images\<close>

text \<open>
  The test of the passthrough filter, \<open>typeof u === "string" && u.trim() !== ""\<close>, and
  the reading "a non-empty string" of the specification.
\<close>

definition is_nonblank_string :: "json \<Rightarrow> bool" where
  "is_nonblank_string u = (case u of JStr s \<Rightarrow> trim s \<noteq> [] | _ \<Rightarrow> False)"

definition is_nonempty_string :: "json \<Rightarrow> bool" where
  "is_nonempty_string u = (case u of JStr s \<Rightarrow> s \<noteq> [] | _ \<Rightarrow> False)"

subsection \<open>Extraction\<close>

text \<open>
  A valid image reference: a string that is not blank, or an object whose \<open>url\<close>, or whose
  \<open>b64_json\<close> (else \<open>base64\<close>), is a string that is not blank. \<open>refs_of arr\<close> is what the
  elements of an array contribute to the extraction output.
\<close>

definition nonblank :: "jsstring option \<Rightarrow> bool" where
  "nonblank v = (case v of Some s \<Rightarrow> trim s \<noteq> [] | None \<Rightarrow> False)"

definition valid_ref :: "json \<Rightarrow> bool" where
  "valid_ref it =
     (case it of
        JStr s \<Rightarrow> trim s \<noteq> []
      | JObj fs \<Rightarrow>
          nonblank (string_prop it (str ''url'')) \<or>
          nonblank (case string_prop it (str ''b64_json'') of Some s \<Rightarrow> Some s
                    | None \<Rightarrow> string_prop it (str ''base64''))
      | _ \<Rightarrow> False)"

definition refs_of :: "json list \<Rightarrow> extracted list" where
  "refs_of arr = filter keep_extracted (concat (map (\<lambda>it. pushAny (Some it)) arr))"

subsection \<open>Polling\<close>

text \<open>
  The configured task type; the status query that \<open>poll_loop\<close> sends first in every
  attempt and the one without the task-type header that it sends after a failed first
  one; a response that is \<open>ok\<close> and whose JSON reports the task status \<open>st\<close>.
\<close>

definition task_type :: "env \<Rightarrow> jsstring" where
  "task_type e =
     trim (case e (str ''MODELSCOPE_TASK_TYPE'') of Some v \<Rightarrow> v | None \<Rightarrow> str ''image_generation'')"

definition poll_request :: "ModelScopeConfig \<Rightarrow> env \<Rightarrow> jsstring \<Rightarrow> json \<Rightarrow> request" where
  "poll_request cfg e apiKey taskId =
     \<lparr>req_method = str ''GET'',
      req_url = apiUrl cfg @ str ''/tasks/'' @ js_toString taskId,
      req_headers =
        (str ''Authorization'', str ''Bearer '' @ apiKey) #
        (if task_type e \<noteq> [] then [(str ''X-ModelScope-Task-Type'', task_type e)] else []),
      req_body = NoBody\<rparr>"

definition plain_request :: "ModelScopeConfig \<Rightarrow> jsstring \<Rightarrow> json \<Rightarrow> request" where
  "plain_request cfg apiKey taskId =
     \<lparr>req_method = str ''GET'',
      req_url = apiUrl cfg @ str ''/tasks/'' @ js_toString taskId,
      req_headers = [(str ''Authorization'', str ''Bearer '' @ apiKey)],
      req_body = NoBody\<rparr>"

definition reports :: "response \<Rightarrow> jsstring \<Rightarrow> bool" where
  "reports resp st =
     (ok resp \<and>
      (case resp_json resp of
         Some d \<Rightarrow> d \<noteq> JNull \<and> get_prop d (str ''task_status'') = Some (JStr st)
       | None \<Rightarrow> False))"

text \<open>
  The trace of one attempt: a sleep of 5000 ms, the status query, the second query if the
  attempt retried without the header, and the reading of the JSON body if the attempt got
  a response that is \<open>ok\<close>. \<open>polled k w\<close> is the world after \<open>k\<close> attempts that each
  sent one query and read its answer.
\<close>

definition attempt_events :: "request \<Rightarrow> request \<Rightarrow> bool \<times> bool \<Rightarrow> event list" where
  "attempt_events q q' a =
     [Sleep 5000, Call q] @ (if fst a then [Call q'] else []) @ (if snd a then [JsonRead] else [])"

definition polled :: "ModelScopeConfig \<Rightarrow> env \<Rightarrow> jsstring \<Rightarrow> json \<Rightarrow> nat \<Rightarrow> world \<Rightarrow> world" where
  "polled cfg e apiKey taskId k w =
     w @ concat (replicate k [Sleep 5000, Call (poll_request cfg e apiKey taskId), JsonRead])"

section \<open>Sample inputs\<close>

text \<open>
  A URL parser that knows three addresses and reports for each what the platform's
  \<open>URL\<close> object does (the host of an IPv6 address in brackets and in its shortest
  hexadecimal form), a configuration whose default model is an image-edit model, an empty
  environment, a world in which nothing has happened yet, a transport that always throws
  and one that always gives the same response.
\<close>

definition sample_parse :: "jsstring \<Rightarrow> parsed_url option" where
  "sample_parse s =
     (if s = str ''http://192.168.1.5/a.png''
      then Some \<lparr>protocol = str ''http:'', hostname = str ''192.168.1.5'', href = s\<rparr>
      else if s = str ''http://[::ffff:127.0.0.1]/a.png''
      then Some \<lparr>protocol = str ''http:'', hostname = str ''[::ffff:7f00:1]'',
                 href = str ''http://[::ffff:7f00:1]/a.png''\<rparr>
      else if s = str ''http://example.com/a.png''
      then Some \<lparr>protocol = str ''http:'', hostname = str ''example.com'', href = s\<rparr>
      else None)"

definition sample_config :: ModelScopeConfig where
  "sample_config = \<lparr>apiUrl = str ''https://api.example/v1'', defaultModel = str ''Qwen/Qwen-Image-Edit'',
                     supportedModels = []\<rparr>"

definition no_env :: env where
  "no_env name = None"

definition idle_world :: world where
  "idle_world = []"

definition dead_transport :: transport where
  "dead_transport n r = Throws"

definition answering :: "response \<Rightarrow> transport" where
  "answering resp n r = Responds resp"

text \<open>
  An image response with a given content-length header and body stream, and a response
  of a given status and media type that declares a length of 50 MB.
\<close>

definition sample_response :: "jsstring option \<Rightarrow> read_event list option \<Rightarrow> response" where
  "sample_response len evs =
     \<lparr>status = 200, resp_text = None, resp_json = None, content_type = Some (str ''image/png''),
      content_length = len, body = evs\<rparr>"

definition oversized_response :: "nat \<Rightarrow> jsstring \<Rightarrow> response" where
  "oversized_response st ct =
     \<lparr>status = st, resp_text = Some (str ''gone''), resp_json = None,
      content_type = Some ct, content_length = Some (str ''52428800''),
      body = Some [Chunk (Some [1, 2, 3])]\<rparr>"

text \<open>
  Provider responses, and four transports that answer the first call (the submission)
  with a job handle and the status queries after it with a fixed script.
\<close>

definition json_response :: "json \<Rightarrow> response" where
  "json_response j =
     \<lparr>status = 200, resp_text = None, resp_json = Some j,
      content_type = Some (str ''application/json''), content_length = None, body = None\<rparr>"

definition unavailable_response :: response where
  "unavailable_response =
     \<lparr>status = 503, resp_text = Some [], resp_json = None, content_type = None,
      content_length = None, body = None\<rparr>"

definition handle_payload :: json where
  "handle_payload = JObj [(str ''task_id'', JStr (str ''x''))]"

definition pending_payload :: json where
  "pending_payload = JObj [(str ''task_status'', JStr (str ''PENDING''))]"

definition succeed_payload :: json where
  "succeed_payload =
     JObj [(str ''task_status'', JStr (str ''SUCCEED'')),
           (str ''output'', JObj [(str ''images'', JArr [JStr (str ''http://a/1.png'')])])]"

definition failed_payload :: json where
  "failed_payload = JObj [(str ''task_status'', JStr (str ''FAILED''))]"

definition script_success :: transport where
  "script_success n r =
     (if n = 0 then Responds (json_response handle_payload)
      else if n = 1 \<or> n = 2 then Responds (json_response pending_payload)
      else if n = 3 then Responds (json_response succeed_payload)
      else Throws)"

definition script_pending :: transport where
  "script_pending n r =
     (if n = 0 then Responds (json_response handle_payload)
      else Responds (json_response pending_payload))"

definition script_failed :: transport where
  "script_failed n r =
     (if n = 0 then Responds (json_response handle_payload)
      else Responds (json_response failed_payload))"

definition script_unavailable :: transport where
  "script_unavailable n r =
     (if n = 0 then Responds (json_response handle_payload)
      else Responds unavailable_response)"

text \<open>
  A request for a model that is not an image-edit model, and the submission that
  \<open>handleModelScope\<close> sends for it with the prompt \<open>a cat\<close> and the key \<open>ms-key\<close>.
\<close>

definition generation_body :: NormalizedChatRequest where
  "generation_body = \<lparr>model = Some (str ''Qwen/Qwen-Image''), size_opt = None\<rparr>"

definition generation_request :: request where
  "generation_request =
     \<lparr>req_method = str ''POST'', req_url = str ''https://api.example/v1/images/generations'',
      req_headers = [(str ''Authorization'', str ''Bearer ms-key''),
                     (str ''X-ModelScope-Async-Mode'', str ''true''),
                     (str ''Content-Type'', str ''application/json'')],
      req_body = JsonBody (JObj
        [(str ''model'', JStr (str ''Qwen/Qwen-Image'')), (str ''prompt'', JStr (str ''a cat'')),
         (str ''response_format'', JStr (str ''url'')), (str ''size'', JStr (str ''2048x2048'')),
         (str ''n'', JNum (NumDecimal False 1 1))])\<rparr>"


section \<open>Properties of the codec\<close>

lemma BASE64_LOOKUP_table_spec: "BASE64_LOOKUP_table = map lookup_spec [0..<256]"
  by code_simp

lemma BASE64_LOOKUP_Some:
  "BASE64_LOOKUP (Some c) = (if c < 256 then Some (lookup_spec c) else None)"
  by (simp add: BASE64_LOOKUP_def BASE64_LOOKUP_table_spec del: upt_Suc)

lemma sym_table: "map sym [0..<64] = BASE64_ALPHABET"
  by code_simp

lemma alphabet_nth: "k < 64 \<Longrightarrow> BASE64_ALPHABET ! k = sym k"
proof -
  assume k: "k < 64"
  have "BASE64_ALPHABET ! k = map sym [0..<64] ! k" by (simp only: sym_table)
  also have "\<dots> = sym k" using k by (simp del: upt_Suc)
  finally show ?thesis .
qed

lemma length_BASE64_ALPHABET: "length BASE64_ALPHABET = 64"
  by (simp add: BASE64_ALPHABET_def str_def)

lemma alphabet_at_sym: "0 \<le> k \<Longrightarrow> k < 64 \<Longrightarrow> alphabet_at k = [sym (nat k)]"
  by (simp add: alphabet_at_def length_BASE64_ALPHABET alphabet_nth)

lemma lookup_sym: "k < 64 \<Longrightarrow> BASE64_LOOKUP (Some (sym k)) = Some (int k)"
  by (auto simp add: BASE64_LOOKUP_Some sym_def lookup_spec_def)

lemma sym_not_pad: "k < 64 \<Longrightarrow> sym k \<noteq> 61"
  by (auto simp add: sym_def)

lemma sym_not_space: "k < 64 \<Longrightarrow> \<not> is_space (sym k)"
  by (auto simp add: sym_def is_space_def)

lemma and63: "(x::int) AND 63 = take_bit 6 x"
  by (simp add: take_bit_eq_mask mask_eq_exp_minus_1)
lemma and255: "(x::int) AND 255 = take_bit 8 x"
  by (simp add: take_bit_eq_mask mask_eq_exp_minus_1)
lemma and3: "(x::int) AND 3 = take_bit 2 x"
  by (simp add: take_bit_eq_mask mask_eq_exp_minus_1)
lemma and15: "(x::int) AND 15 = take_bit 4 x"
  by (simp add: take_bit_eq_mask mask_eq_exp_minus_1)

lemma idx_nonneg: "0 \<le> (x::int) AND 63"
  by (simp add: and63)

lemma idx_less: "(x::int) AND 63 < 64"
  using take_bit_int_less_exp [of 6 x] by (simp add: and63)

lemma bit_byte: "bit (b::byte) k \<Longrightarrow> k < 8"
  by (drule bit_imp_le_length) simp

lemma regroup24:
  fixes n :: int
  assumes "\<And>k. bit n k \<Longrightarrow> k < 24"
  shows "push_bit 18 (take_bit 6 (drop_bit 18 n)) OR
         push_bit 12 (take_bit 6 (drop_bit 12 n)) OR
         push_bit 6 (take_bit 6 (take_bit 6 (drop_bit 6 n))) OR
         take_bit 6 (take_bit 6 n) = n"
proof (rule bit_eqI)
  fix k
  show "bit (push_bit 18 (take_bit 6 (drop_bit 18 n)) OR
         push_bit 12 (take_bit 6 (drop_bit 12 n)) OR
         push_bit 6 (take_bit 6 (take_bit 6 (drop_bit 6 n))) OR
         take_bit 6 (take_bit 6 n)) k = bit n k"
  proof (cases "bit n k")
    case True
    then have "k < 24" by (rule assms)
    with True show ?thesis
      by (cases "18 \<le> k"; cases "12 \<le> k"; cases "6 \<le> k") (simp_all add: bit_simps, arith+)
  next
    case False
    then show ?thesis by (simp add: bit_simps)
  qed
qed

lemma pack3_bits: "bit (pack3 b0 b1 b2) k \<Longrightarrow> k < 24"
  by (auto simp add: pack3_def bit_simps dest: bit_byte)

lemma unpack3_b0: "word_of_int (drop_bit 16 (pack3 b0 b1 b2) AND 255) = b0"
  unfolding pack3_def and255
  apply (rule bit_word_eqI)
  apply (auto simp add: bit_simps dest: bit_byte)
  done

lemma unpack3_b1: "word_of_int (drop_bit 8 (pack3 b0 b1 b2) AND 255) = b1"
  unfolding pack3_def and255
  apply (rule bit_word_eqI)
  apply (auto simp add: bit_simps dest: bit_byte)
  done

lemma unpack3_b2: "word_of_int (pack3 b0 b1 b2 AND 255) = b2"
  unfolding pack3_def and255
  apply (rule bit_word_eqI)
  apply (auto simp add: bit_simps dest: bit_byte)
  done

lemma bit62: "bit (62::int) k \<Longrightarrow> k < 6"
proof -
  assume a: "bit (62::int) k"
  have "take_bit 6 (62::int) = 62" by simp
  with a have "bit (take_bit 6 (62::int)) k" by (simp only:)
  then show ?thesis by (simp only: bit_take_bit_iff)
qed

lemma SS_diff2: "\<not> n < 2 \<Longrightarrow> Suc (Suc (n - 2)) = n" "2 \<le> n \<Longrightarrow> Suc (Suc (n - 2)) = n"
  by simp_all

lemma idx_shift4_nonneg: "0 \<le> push_bit 4 ((x::int) AND 3)"
  by (simp add: and3)

lemma idx_shift4_less: "push_bit 4 ((x::int) AND 3) < 64"
  using take_bit_int_less_exp [of 2 x] by (simp add: and3 push_bit_eq_mult)

lemma idx_shift2_nonneg: "0 \<le> push_bit 2 ((x::int) AND 15)"
  by (simp add: and15)

lemma idx_shift2_less: "push_bit 2 ((x::int) AND 15) < 64"
  using take_bit_int_less_exp [of 4 x] by (simp add: and15 push_bit_eq_mult)

lemma unpack1_b0:
  "word_of_int (drop_bit 16 (push_bit 18 (drop_bit 2 (uint b0) AND 63) OR
                             push_bit 12 (push_bit 4 (uint b0 AND 3)) OR
                             push_bit 6 62 OR 62) AND 255) = (b0::byte)"
  unfolding and255 and63 and3
  apply (rule bit_word_eqI)
  apply (auto simp add: bit_simps SS_diff2 dest: bit_byte bit62)
  done

lemma unpack2_b0:
  "word_of_int (drop_bit 16 (push_bit 18 (drop_bit 10 (pack2 b0 b1) AND 63) OR
                             push_bit 12 (drop_bit 4 (pack2 b0 b1) AND 63) OR
                             push_bit 6 (push_bit 2 (pack2 b0 b1 AND 15) AND 63) OR 62) AND 255) = b0"
  unfolding and255 and63 and15 pack2_def
  apply (rule bit_word_eqI)
  apply (auto simp add: bit_simps SS_diff2 dest: bit_byte bit62)
  done

lemma unpack2_b1:
  "word_of_int (drop_bit 8 (push_bit 18 (drop_bit 10 (pack2 b0 b1) AND 63) OR
                             push_bit 12 (drop_bit 4 (pack2 b0 b1) AND 63) OR
                             push_bit 6 (push_bit 2 (pack2 b0 b1 AND 15) AND 63) OR 62) AND 255) = b1"
  unfolding and255 and63 and15 pack2_def
  apply (rule bit_word_eqI)
  apply (auto simp add: bit_simps SS_diff2 dest: bit_byte bit62)
  done

declare decode_loop.simps [simp del]

lemma decode_loop_Nil: "decode_loop [] o1 out = Inr out"
  by (subst decode_loop.simps) simp

lemma decode_loop_group:
  "decode_loop (c0 # c1 # c2 # c3 # rest) o1 out =
     (let v0 = BASE64_LOOKUP (Some c0);
          v1 = BASE64_LOOKUP (Some c1);
          v2 = (if c2 = 61 then Some (- 2) else BASE64_LOOKUP (Some c2));
          v3 = (if c3 = 61 then Some (- 2) else BASE64_LOOKUP (Some c3))
      in
        if js_lt0 v0 \<or> js_lt0 v1 \<or> v2 = Some (- 1) \<or> v3 = Some (- 1)
        then Inl InvalidCharacter
        else
          let n = push_bit 18 (js_int32 v0) OR push_bit 12 (js_int32 v1) OR
                  push_bit 6 (js_int32 v2 AND 63) OR (js_int32 v3 AND 63);
              out1 = out[o1 := word_of_int (drop_bit 16 n AND 255)];
              o2 = o1 + 1;
              out2 = (if v2 \<noteq> Some (- 2) then out1[o2 := word_of_int (drop_bit 8 n AND 255)] else out1);
              o3 = (if v2 \<noteq> Some (- 2) then o2 + 1 else o2);
              out3 = (if v3 \<noteq> Some (- 2) then out2[o3 := word_of_int (n AND 255)] else out2);
              o4 = (if v3 \<noteq> Some (- 2) then o3 + 1 else o3)
          in decode_loop rest o4 out3)"
  by (subst decode_loop.simps) (simp add: charCodeAt_def Let_def)

lemma write_at_Cons:
  "o1 < length out \<Longrightarrow> write_at (out[o1 := b]) (Suc o1) bs = write_at out o1 (b # bs)"
  by (simp add: write_at_def take_Suc_conv_app_nth)

lemma write_at_Nil: "write_at out o1 [] = out"
  by (simp add: write_at_def)

lemma idx_nat_less: "nat ((x::int) AND 63) < 64"
  using idx_less [of x] by linarith

lemma decode3:
  "decode_loop (alphabet_at (drop_bit 18 (pack3 b0 b1 b2) AND 63) @
                alphabet_at (drop_bit 12 (pack3 b0 b1 b2) AND 63) @
                alphabet_at (drop_bit 6 (pack3 b0 b1 b2) AND 63) @
                alphabet_at (pack3 b0 b1 b2 AND 63) @ rest) o1 out =
   decode_loop rest (Suc (Suc (Suc o1))) (out[o1 := b0, Suc o1 := b1, Suc (Suc o1) := b2])"
proof -
  let ?n = "pack3 b0 b1 b2"
  let ?i0 = "drop_bit 18 ?n AND 63" and ?i1 = "drop_bit 12 ?n AND 63"
  and ?i2 = "drop_bit 6 ?n AND 63" and ?i3 = "?n AND 63"
  have r: "0 \<le> ?i0" "?i0 < 64" "0 \<le> ?i1" "?i1 < 64" "0 \<le> ?i2" "?i2 < 64" "0 \<le> ?i3" "?i3 < 64"
    by (rule idx_nonneg idx_less)+
  have n: "push_bit 18 ?i0 OR push_bit 12 ?i1 OR push_bit 6 (?i2 AND 63) OR (?i3 AND 63) = ?n"
    using regroup24 [of ?n, OF pack3_bits] by (simp only: and63)
  have k: "nat ?i0 < 64" "nat ?i1 < 64" "nat ?i2 < 64" "nat ?i3 < 64"
    by (rule idx_nat_less)+
  show ?thesis
    using r k n
    by (simp add: alphabet_at_sym decode_loop_group lookup_sym sym_not_pad js_lt0_def js_int32_def
        unpack3_b0 unpack3_b1 unpack3_b2 Let_def del: and_nonnegative_int_iff)
qed

lemma decode_loop_pad1:
  assumes "i0 < 64" "i1 < 64" "i2 < 64"
  shows "decode_loop (sym i0 # sym i1 # sym i2 # 61 # rest) o1 out =
         decode_loop rest (Suc (Suc o1))
           (out[o1 := word_of_int (drop_bit 16 (push_bit 18 (int i0) OR push_bit 12 (int i1) OR
                                     push_bit 6 (int i2 AND 63) OR 62) AND 255),
                Suc o1 := word_of_int (drop_bit 8 (push_bit 18 (int i0) OR push_bit 12 (int i1) OR
                                     push_bit 6 (int i2 AND 63) OR 62) AND 255)])"
  using assms
  by (simp add: decode_loop_group lookup_sym sym_not_pad js_lt0_def js_int32_def Let_def)

lemma decode_loop_pad2:
  assumes "i0 < 64" "i1 < 64"
  shows "decode_loop (sym i0 # sym i1 # 61 # 61 # rest) o1 out =
         decode_loop rest (Suc o1)
           (out[o1 := word_of_int (drop_bit 16 (push_bit 18 (int i0) OR push_bit 12 (int i1) OR
                                     push_bit 6 62 OR 62) AND 255)])"
  using assms
  by (simp add: decode_loop_group lookup_sym sym_not_pad js_lt0_def js_int32_def Let_def)

lemma int_nat_idx: "int (nat ((x::int) AND 63)) = x AND 63"
  using idx_nonneg [of x] by (simp only: int_nat_eq if_True)

lemma decode2:
  "decode_loop (alphabet_at (drop_bit 10 (pack2 b0 b1) AND 63) @
                alphabet_at (drop_bit 4 (pack2 b0 b1) AND 63) @
                alphabet_at (push_bit 2 (pack2 b0 b1 AND 15)) @ [61]) o1 out =
   Inr (out[o1 := b0, Suc o1 := b1])"
proof -
  let ?n = "pack2 b0 b1"
  define i0 where "i0 = nat (drop_bit 10 ?n AND 63)"
  define i1 where "i1 = nat (drop_bit 4 ?n AND 63)"
  define i2 where "i2 = nat (push_bit 2 (?n AND 15))"
  have k: "i0 < 64" "i1 < 64"
    unfolding i0_def i1_def by (rule idx_nat_less)+
  have k2: "i2 < 64"
    unfolding i2_def using idx_shift2_less [of ?n] by linarith
  have e: "int i0 = drop_bit 10 ?n AND 63" "int i1 = drop_bit 4 ?n AND 63"
    unfolding i0_def i1_def by (rule int_nat_idx)+
  have e2: "int i2 = push_bit 2 (?n AND 15)"
    unfolding i2_def using idx_shift2_nonneg [of ?n] by (simp only: int_nat_eq if_True)
  have a: "alphabet_at (drop_bit 10 ?n AND 63) = [sym i0]"
          "alphabet_at (drop_bit 4 ?n AND 63) = [sym i1]"
    unfolding i0_def i1_def by (rule alphabet_at_sym [OF idx_nonneg idx_less])+
  have a2: "alphabet_at (push_bit 2 (?n AND 15)) = [sym i2]"
    unfolding i2_def by (rule alphabet_at_sym [OF idx_shift2_nonneg idx_shift2_less])
  have "decode_loop (sym i0 # sym i1 # sym i2 # 61 # []) o1 out = Inr (out[o1 := b0, Suc o1 := b1])"
    by (simp only: decode_loop_pad1 [OF k k2] e e2 unpack2_b0 unpack2_b1 decode_loop_Nil)
  then show ?thesis
    by (simp only: a a2 append.simps)
qed

lemma decode1:
  "decode_loop (alphabet_at (drop_bit 2 (uint b0) AND 63) @
                alphabet_at (push_bit 4 (uint b0 AND 3)) @ [61, 61]) o1 out =
   Inr (out[o1 := b0])"
proof -
  let ?n = "uint b0"
  define i0 where "i0 = nat (drop_bit 2 ?n AND 63)"
  define i1 where "i1 = nat (push_bit 4 (?n AND 3))"
  have k: "i0 < 64"
    unfolding i0_def by (rule idx_nat_less)
  have k2: "i1 < 64"
    unfolding i1_def using idx_shift4_less [of ?n] by linarith
  have e: "int i0 = drop_bit 2 ?n AND 63"
    unfolding i0_def by (rule int_nat_idx)
  have e2: "int i1 = push_bit 4 (?n AND 3)"
    unfolding i1_def using idx_shift4_nonneg [of ?n] by (simp only: int_nat_eq if_True)
  have a: "alphabet_at (drop_bit 2 ?n AND 63) = [sym i0]"
    unfolding i0_def by (rule alphabet_at_sym [OF idx_nonneg idx_less])
  have a2: "alphabet_at (push_bit 4 (?n AND 3)) = [sym i1]"
    unfolding i1_def by (rule alphabet_at_sym [OF idx_shift4_nonneg idx_shift4_less])
  have "decode_loop (sym i0 # sym i1 # 61 # 61 # []) o1 out = Inr (out[o1 := b0])"
    by (simp only: decode_loop_pad2 [OF k k2] e e2 unpack1_b0 decode_loop_Nil)
  then show ?thesis
    by (simp only: a a2 append.simps)
qed

lemma encode_loop_1:
  "encode_loop [b0] =
     alphabet_at (drop_bit 2 (uint b0) AND 63) @ alphabet_at (push_bit 4 (uint b0 AND 3)) @ [61, 61]"
  by (simp only: encode_loop.simps Let_def)

lemma encode_loop_2:
  "encode_loop [b0, b1] =
     alphabet_at (drop_bit 10 (pack2 b0 b1) AND 63) @ alphabet_at (drop_bit 4 (pack2 b0 b1) AND 63) @
     alphabet_at (push_bit 2 (pack2 b0 b1 AND 15)) @ [61]"
  by (simp only: encode_loop.simps Let_def pack2_def)

lemma encode_loop_3:
  "encode_loop (b0 # b1 # b2 # rest) =
     alphabet_at (drop_bit 18 (pack3 b0 b1 b2) AND 63) @
     alphabet_at (drop_bit 12 (pack3 b0 b1 b2) AND 63) @
     alphabet_at (drop_bit 6 (pack3 b0 b1 b2) AND 63) @
     alphabet_at (pack3 b0 b1 b2 AND 63) @ encode_loop rest"
  by (simp only: encode_loop.simps Let_def pack3_def)

lemma decode_encode_loop:
  "o1 + length bs \<le> length out \<Longrightarrow>
   decode_loop (encode_loop bs) o1 out = Inr (write_at out o1 bs)"
proof (induction bs arbitrary: o1 out rule: encode_loop.induct)
  case 1
  then show ?case by (simp add: decode_loop_Nil write_at_Nil)
next
  case (2 b0)
  then have "o1 < length out" by simp
  then have "write_at out o1 [b0] = out[o1 := b0]"
    by (simp add: write_at_Cons [symmetric] write_at_Nil)
  then show ?case
    by (simp only: encode_loop_1 decode1)
next
  case (3 b0 b1)
  then have "o1 < length out" "Suc o1 < length out" by simp_all
  then have "write_at out o1 [b0, b1] = out[o1 := b0, Suc o1 := b1]"
    by (simp add: write_at_Cons [symmetric] write_at_Nil)
  then show ?case
    by (simp only: encode_loop_2 decode2)
next
  case (4 b0 b1 b2 rest)
  let ?out = "out[o1 := b0, Suc o1 := b1, Suc (Suc o1) := b2]"
  from 4 have l: "o1 < length out" "Suc o1 < length out" "Suc (Suc o1) < length out"
    and r: "Suc (Suc (Suc o1)) + length rest \<le> length ?out"
    by simp_all
  have "decode_loop (encode_loop (b0 # b1 # b2 # rest)) o1 out =
        decode_loop (encode_loop rest) (Suc (Suc (Suc o1))) ?out"
    by (simp only: encode_loop_3 decode3)
  also have "\<dots> = Inr (write_at ?out (Suc (Suc (Suc o1))) rest)"
    by (rule "4.IH" [OF refl r])
  also have "write_at ?out (Suc (Suc (Suc o1))) rest = write_at out o1 (b0 # b1 # b2 # rest)"
    using l by (simp add: write_at_Cons)
  finally show ?case .
qed

declare encode_loop.simps [simp del]

lemma encode_loop_Nil: "encode_loop [] = []"
  by (simp only: encode_loop.simps)

lemma alphabet_at_idx: "\<exists>k<64. alphabet_at ((x::int) AND 63) = [sym k]"
  using alphabet_at_sym [OF idx_nonneg idx_less] idx_nat_less by blast

lemma alphabet_at_shift4: "\<exists>k<64. alphabet_at (push_bit 4 ((x::int) AND 3)) = [sym k]"
proof -
  have "nat (push_bit 4 (x AND 3)) < 64"
    using idx_shift4_less [of x] by linarith
  then show ?thesis
    using alphabet_at_sym [OF idx_shift4_nonneg idx_shift4_less] by blast
qed

lemma alphabet_at_shift2: "\<exists>k<64. alphabet_at (push_bit 2 ((x::int) AND 15)) = [sym k]"
proof -
  have "nat (push_bit 2 (x AND 15)) < 64"
    using idx_shift2_less [of x] by linarith
  then show ?thesis
    using alphabet_at_sym [OF idx_shift2_nonneg idx_shift2_less] by blast
qed

lemma encode_loop_1_shape:
  "\<exists>k0 k1. k0 < 64 \<and> k1 < 64 \<and> encode_loop [b0] = [sym k0, sym k1, 61, 61]"
proof -
  obtain k0 where "k0 < 64" "alphabet_at (drop_bit 2 (uint b0) AND 63) = [sym k0]"
    using alphabet_at_idx by blast
  moreover obtain k1 where "k1 < 64" "alphabet_at (push_bit 4 (uint b0 AND 3)) = [sym k1]"
    using alphabet_at_shift4 by blast
  ultimately show ?thesis
    by (simp only: encode_loop_1) auto
qed

lemma encode_loop_2_shape:
  "\<exists>k0 k1 k2. k0 < 64 \<and> k1 < 64 \<and> k2 < 64 \<and> encode_loop [b0, b1] = [sym k0, sym k1, sym k2, 61]"
proof -
  obtain k0 where "k0 < 64" "alphabet_at (drop_bit 10 (pack2 b0 b1) AND 63) = [sym k0]"
    using alphabet_at_idx by blast
  moreover obtain k1 where "k1 < 64" "alphabet_at (drop_bit 4 (pack2 b0 b1) AND 63) = [sym k1]"
    using alphabet_at_idx by blast
  moreover obtain k2 where "k2 < 64" "alphabet_at (push_bit 2 (pack2 b0 b1 AND 15)) = [sym k2]"
    using alphabet_at_shift2 by blast
  ultimately show ?thesis
    by (simp only: encode_loop_2) auto
qed

lemma encode_loop_3_shape:
  "\<exists>k0 k1 k2 k3. k0 < 64 \<and> k1 < 64 \<and> k2 < 64 \<and> k3 < 64 \<and>
     encode_loop (b0 # b1 # b2 # rest) = sym k0 # sym k1 # sym k2 # sym k3 # encode_loop rest"
proof -
  obtain k0 where "k0 < 64" "alphabet_at (drop_bit 18 (pack3 b0 b1 b2) AND 63) = [sym k0]"
    using alphabet_at_idx by blast
  moreover obtain k1 where "k1 < 64" "alphabet_at (drop_bit 12 (pack3 b0 b1 b2) AND 63) = [sym k1]"
    using alphabet_at_idx by blast
  moreover obtain k2 where "k2 < 64" "alphabet_at (drop_bit 6 (pack3 b0 b1 b2) AND 63) = [sym k2]"
    using alphabet_at_idx by blast
  moreover obtain k3 where "k3 < 64" "alphabet_at (pack3 b0 b1 b2 AND 63) = [sym k3]"
    using alphabet_at_idx by blast
  ultimately show ?thesis
    by (simp only: encode_loop_3) auto
qed

lemma outLen_arith:
  "4 * ((l + 2) div 3) div 4 * 3 - (3 - l mod 3) mod 3 = (l::nat)"
proof -
  define q r where "q = l div 3" and "r = l mod 3"
  then have l: "l = 3 * q + r" and r: "r < 3" by simp_all
  have d: "(l + 2) div 3 = q + (r + 2) div 3" unfolding l by simp
  have m: "l mod 3 = r" by (simp add: r_def)
  have "4 * (q + (r + 2) div 3) div 4 * 3 - (3 - r) mod 3 = 3 * q + r"
  proof -
    from r consider "r = 0" | "r = 1" | "r = 2" by linarith
    then show ?thesis by cases simp_all
  qed
  then show ?thesis unfolding d m using l by simp
qed

lemma len_step: "4 + 4 * ((l + 2) div 3) = 4 * ((Suc (Suc (Suc l)) + 2) div 3)"
proof -
  have "(Suc (Suc (Suc l)) + 2) div 3 = (l + 2 + 3) div 3" by simp
  also have "\<dots> = (l + 2) div 3 + 1" by (simp only: div_add_self2)
  finally show ?thesis by simp
qed

lemma len_pos: "0 < l \<Longrightarrow> 0 < ((l::nat) + 2) div 3"
  by (simp add: div_greater_zero_iff)

lemma len_ge4: "0 < l \<Longrightarrow> 4 \<le> 4 * (((l::nat) + 2) div 3)"
  using len_pos [of l] by simp

lemma length_encode_loop: "length (encode_loop bs) = 4 * ((length bs + 2) div 3)"
proof (induction bs rule: encode_loop.induct)
  case 1
  show ?case by (simp add: encode_loop_Nil)
next
  case (2 b0)
  obtain k0 k1 where e: "encode_loop [b0] = [sym k0, sym k1, 61, 61]"
    using encode_loop_1_shape [of b0] by blast
  show ?case unfolding e by simp
next
  case (3 b0 b1)
  obtain k0 k1 k2 where e: "encode_loop [b0, b1] = [sym k0, sym k1, sym k2, 61]"
    using encode_loop_2_shape [of b0 b1] by blast
  show ?case unfolding e by simp
next
  case (4 b0 b1 b2 rest)
  obtain k0 k1 k2 k3 where
    e: "encode_loop (b0 # b1 # b2 # rest) = sym k0 # sym k1 # sym k2 # sym k3 # encode_loop rest"
    using encode_loop_3_shape [of b0 b1 b2 rest] by blast
  have "length (encode_loop rest) = 4 * ((length rest + 2) div 3)"
    by (rule "4.IH" [OF refl])
  then have "length (sym k0 # sym k1 # sym k2 # sym k3 # encode_loop rest) =
             4 + 4 * ((length rest + 2) div 3)"
    by simp
  also have "\<dots> = 4 * ((length (b0 # b1 # b2 # rest) + 2) div 3)"
    using len_step [of "length rest"] by simp
  finally show ?case unfolding e .
qed

lemma encode_loop_no_space: "c \<in> set (encode_loop bs) \<Longrightarrow> \<not> is_space c"
proof (induction bs rule: encode_loop.induct)
  case 1
  then show ?case by (simp add: encode_loop_Nil)
next
  case (2 b0)
  obtain k0 k1 where k: "k0 < 64" "k1 < 64" and e: "encode_loop [b0] = [sym k0, sym k1, 61, 61]"
    using encode_loop_1_shape [of b0] by blast
  have "\<not> is_space 61" by (simp add: is_space_def)
  with 2 k show ?case unfolding e by (auto simp add: sym_not_space)
next
  case (3 b0 b1)
  obtain k0 k1 k2 where k: "k0 < 64" "k1 < 64" "k2 < 64"
    and e: "encode_loop [b0, b1] = [sym k0, sym k1, sym k2, 61]"
    using encode_loop_2_shape [of b0 b1] by blast
  have "\<not> is_space 61" by (simp add: is_space_def)
  with 3 k show ?case unfolding e by (auto simp add: sym_not_space)
next
  case (4 b0 b1 b2 rest)
  obtain k0 k1 k2 k3 where k: "k0 < 64" "k1 < 64" "k2 < 64" "k3 < 64" and
    e: "encode_loop (b0 # b1 # b2 # rest) = sym k0 # sym k1 # sym k2 # sym k3 # encode_loop rest"
    using encode_loop_3_shape [of b0 b1 b2 rest] by blast
  from "4.prems" k "4.IH" [OF refl] show ?case unfolding e by (auto simp add: sym_not_space)
qed

lemma endsWith_Cons:
  "length p \<le> length t \<Longrightarrow> endsWith (x # t) p = endsWith t p"
  by (simp add: endsWith_def Suc_diff_le)

lemma padding_of_encode_loop:
  "bs \<noteq> [] \<Longrightarrow> padding_of (encode_loop bs) = (3 - length bs mod 3) mod 3"
proof (induction bs rule: encode_loop.induct)
  case 1
  then show ?case by simp
next
  case (2 b0)
  obtain k0 k1 where e: "encode_loop [b0] = [sym k0, sym k1, 61, 61]"
    using encode_loop_1_shape [of b0] by blast
  show ?case unfolding e
    by (simp add: padding_of_def endsWith_def str_def)
next
  case (3 b0 b1)
  obtain k0 k1 k2 where k: "k2 < 64"
    and e: "encode_loop [b0, b1] = [sym k0, sym k1, sym k2, 61]"
    using encode_loop_2_shape [of b0 b1] by blast
  show ?case unfolding e using k
    by (simp add: padding_of_def endsWith_def str_def sym_not_pad)
next
  case (4 b0 b1 b2 rest)
  obtain k0 k1 k2 k3 where k: "k3 < 64"
    and e: "encode_loop (b0 # b1 # b2 # rest) = sym k0 # sym k1 # sym k2 # sym k3 # encode_loop rest"
    using encode_loop_3_shape [of b0 b1 b2 rest] by blast
  show ?case
  proof (cases "rest = []")
    case True
    with k show ?thesis unfolding e
      by (simp add: padding_of_def endsWith_def str_def sym_not_pad encode_loop_Nil)
  next
    case False
    then have "0 < length rest" by simp
    then have "4 \<le> length (encode_loop rest)"
      unfolding length_encode_loop by (rule len_ge4)
    then have "padding_of (encode_loop (b0 # b1 # b2 # rest)) = padding_of (encode_loop rest)"
      unfolding e padding_of_def by (simp add: endsWith_Cons str_def)
    with False "4.IH" [OF refl] show ?thesis by simp
  qed
qed

lemma decode_encode: "decodeBase64 (encodeBase64 bs) = Inr bs"
proof (cases "bs = []")
  case True
  then show ?thesis by (simp add: encodeBase64_def decodeBase64_def)
next
  case False
  let ?e = "encode_loop bs"
  have c: "filter (\<lambda>c. \<not> is_space c) ?e = ?e"
    by (simp add: encode_loop_no_space)
  have l: "length ?e = 4 * ((length bs + 2) div 3)"
    by (rule length_encode_loop)
  from False have "0 < length bs" by simp
  then have "0 < (length bs + 2) div 3" by (rule len_pos)
  then have ne: "length ?e \<noteq> 0" and m: "length ?e mod 4 = 0"
    unfolding l by simp_all
  have o: "length ?e div 4 * 3 - padding_of ?e = length bs"
    unfolding l padding_of_encode_loop [OF False] by (rule outLen_arith)
  have "decodeBase64 ?e = decode_loop ?e 0 (replicate (length ?e div 4 * 3 - padding_of ?e) 0)"
    using ne m by (simp add: decodeBase64_def c Let_def padding_of_def)
  also have "\<dots> = decode_loop ?e 0 (replicate (length bs) 0)"
    by (simp only: o)
  also have "\<dots> = Inr (write_at (replicate (length bs) 0) 0 bs)"
    by (rule decode_encode_loop) simp
  also have "\<dots> = Inr bs"
    by (simp add: write_at_def)
  finally show ?thesis using False by (simp add: encodeBase64_def)
qed

lemma list4_cases:
  assumes "cs \<noteq> []" "length cs mod 4 = 0"
  obtains c0 c1 c2 c3 rest where "cs = c0 # c1 # c2 # c3 # rest"
proof -
  from assms have "4 \<le> length cs"
    by (cases cs) (auto simp add: mod_eq_0_iff_dvd dest: dvd_imp_le)
  then obtain c0 r0 where "cs = c0 # r0" "3 \<le> length r0" by (cases cs) auto
  moreover then obtain c1 r1 where "r0 = c1 # r1" "2 \<le> length r1" by (cases r0) auto
  moreover then obtain c2 r2 where "r1 = c2 # r2" "1 \<le> length r2" by (cases r1) auto
  moreover then obtain c3 r3 where "r2 = c3 # r3" by (cases r2) auto
  ultimately show ?thesis using that by blast
qed

lemma decode_loop_group_bad:
  assumes "i < 4" "bad_at (c0 # c1 # c2 # c3 # rest) i"
  shows "decode_loop (c0 # c1 # c2 # c3 # rest) o1 out = Inl InvalidCharacter"
proof -
  from assms(1) consider "i = 0" | "i = 1" | "i = 2" | "i = 3" by linarith
  then show ?thesis
  proof cases
    case 1
    with assms(2) show ?thesis by (simp add: bad_at_def decode_loop_group Let_def)
  next
    case 2
    with assms(2) show ?thesis by (simp add: bad_at_def decode_loop_group Let_def)
  next
    case 3
    with assms(2) show ?thesis by (simp add: bad_at_def decode_loop_group Let_def)
  next
    case 4
    with assms(2) show ?thesis by (simp add: bad_at_def decode_loop_group Let_def)
  qed
qed

lemma decode_loop_group_step:
  "decode_loop (c0 # c1 # c2 # c3 # rest) o1 out = Inl InvalidCharacter \<or>
   (\<exists>o2 out2. decode_loop (c0 # c1 # c2 # c3 # rest) o1 out = decode_loop rest o2 out2)"
  by (simp add: decode_loop_group Let_def) blast

lemma bad_at_shift: "bad_at (c0 # c1 # c2 # c3 # rest) (i + 4) = bad_at rest i"
  by (simp add: bad_at_def)

lemma decode_loop_bad:
  "length cs mod 4 = 0 \<Longrightarrow> i < length cs \<Longrightarrow> bad_at cs i \<Longrightarrow>
   decode_loop cs o1 out = Inl InvalidCharacter"
proof (induction "length cs" arbitrary: cs i o1 out rule: less_induct)
  case less
  from less.prems have "cs \<noteq> []" by auto
  then obtain c0 c1 c2 c3 rest where cs: "cs = c0 # c1 # c2 # c3 # rest"
    using less.prems(1) by (rule list4_cases)
  show ?case
  proof (cases "i < 4")
    case True
    from True less.prems(3) show ?thesis unfolding cs by (rule decode_loop_group_bad)
  next
    case False
    then obtain j where i: "i = j + 4" by (metis add.commute le_Suc_ex not_less)
    from less.prems have r: "length rest mod 4 = 0" "j < length rest" "bad_at rest j"
      unfolding cs i by (simp_all add: bad_at_shift del: bad_at_def)
    have l: "length rest < length cs" unfolding cs by simp
    from decode_loop_group_step [of c0 c1 c2 c3 rest o1 out] show ?thesis
    proof
      assume "decode_loop (c0 # c1 # c2 # c3 # rest) o1 out = Inl InvalidCharacter"
      then show ?thesis unfolding cs .
    next
      assume "\<exists>o2 out2. decode_loop (c0 # c1 # c2 # c3 # rest) o1 out = decode_loop rest o2 out2"
      then obtain o2 out2 where
        "decode_loop (c0 # c1 # c2 # c3 # rest) o1 out = decode_loop rest o2 out2" by blast
      also have "\<dots> = Inl InvalidCharacter" using l r by (rule less.hyps)
      finally show ?thesis unfolding cs .
    qed
  qed
qed

lemma LOOKUP_pad: "js_lt0 (BASE64_LOOKUP (Some 61))"
  by (simp add: BASE64_LOOKUP_Some lookup_spec_def js_lt0_def)

lemma pad_len: "0 < l mod 4 \<Longrightarrow> ((l::nat) + 4 - l mod 4) mod 4 = 0"
proof -
  define q r where "q = l div 4" and "r = l mod 4"
  then have l: "l = 4 * q + r" and r: "r < 4" by simp_all
  have "4 * q + r + 4 - r = 4 * (q + 1)" by simp
  then have "(4 * q + r + 4 - r) mod 4 = 0" by (simp only: mod_mult_self1_is_0)
  then show ?thesis unfolding l using r by simp
qed

lemma length_padded_of: "length (padded_of input) mod 4 = 0"
  by (simp add: padded_of_def pad_len)

lemma padded_of_nth:
  "i < length (cleaned_of input) \<Longrightarrow> padded_of input ! i = cleaned_of input ! i"
  by (simp add: padded_of_def nth_append)

lemma pad_ge: "(l::nat) \<le> l + 4 - l mod 4"
proof -
  have "l mod 4 < 4" by simp
  then show ?thesis by linarith
qed

lemma length_padded_of_ge: "length (cleaned_of input) \<le> length (padded_of input)"
  by (simp add: padded_of_def pad_ge)

lemma decodeBase64_padded:
  assumes "cleaned_of input \<noteq> []"
  shows "decodeBase64 input =
     decode_loop (padded_of input) 0
       (replicate (length (padded_of input) div 4 * 3 - padding_of (padded_of input)) 0)"
proof -
  let ?c = "filter (\<lambda>c. \<not> is_space c) input"
  have p: "(if length ?c mod 4 = 0 then ?c else ?c @ replicate (4 - length ?c mod 4) 61) =
           padded_of input"
    by (simp only: padded_of_def cleaned_of_def)
  from assms have ne: "length ?c \<noteq> 0"
    by (simp add: cleaned_of_def)
  have "decodeBase64 input =
          (if length (padded_of input) mod 4 \<noteq> 0 then Inl InvalidLength
           else decode_loop (padded_of input) 0
                  (replicate (length (padded_of input) div 4 * 3 - padding_of (padded_of input)) 0))"
    using ne by (simp only: decodeBase64_def Let_def p padding_of_def if_False)
  then show ?thesis
    by (simp only: length_padded_of) simp
qed

lemma decodeBase64_bad:
  assumes "i < length (padded_of input)" "bad_at (padded_of input) i"
  shows "decodeBase64 input = Inl InvalidCharacter"
proof -
  from assms(1) have "padded_of input \<noteq> []" by auto
  then have "cleaned_of input \<noteq> []" by (auto simp add: padded_of_def)
  then have "decodeBase64 input =
     decode_loop (padded_of input) 0
       (replicate (length (padded_of input) div 4 * 3 - padding_of (padded_of input)) 0)"
    by (rule decodeBase64_padded)
  also have "\<dots> = Inl InvalidCharacter"
    using length_padded_of assms by (rule decode_loop_bad)
  finally show ?thesis .
qed


lemma set_alphabet: "set BASE64_ALPHABET = sym ` {0..<64}"
proof -
  have "set (map sym [0..<64]) = sym ` {0..<64}"
    by (simp only: set_map set_upt)
  then show ?thesis by (simp only: sym_table)
qed

lemma in_alphabet:
  assumes "lookup_spec c \<noteq> - 1" "c \<noteq> 45" "c \<noteq> 95"
  shows "c \<in> set BASE64_ALPHABET"
proof -
  have "\<exists>k<64. c = sym k"
  proof (cases "65 \<le> c \<and> c \<le> 90")
    case True
    then have "c - 65 < 26" by linarith
    with True have "c - 65 < 64 \<and> c = sym (c - 65)" by (simp add: sym_def)
    then show ?thesis by blast
  next
    case u: False
    show ?thesis
    proof (cases "97 \<le> c \<and> c \<le> 122")
      case True
      then have "\<not> c - 71 < 26" "c - 71 < 52" by linarith+
      with True have "c - 71 < 64 \<and> c = sym (c - 71)" by (simp add: sym_def)
      then show ?thesis by blast
    next
      case l: False
      show ?thesis
      proof (cases "48 \<le> c \<and> c \<le> 57")
        case True
        then have "\<not> c + 4 < 52" "c + 4 < 62" by linarith+
        with True have "c + 4 < 64 \<and> c = sym (c + 4)" by (simp add: sym_def)
        then show ?thesis by blast
      next
        case d: False
        show ?thesis
        proof (cases "c = 43")
          case True
          then have "(62::nat) < 64 \<and> c = sym 62" by (simp add: sym_def)
          then show ?thesis by blast
        next
          case p: False
          have "c = 47"
          proof (rule ccontr)
            assume "c \<noteq> 47"
            with u l d p assms(2,3) have "lookup_spec c = - 1"
              by (simp add: lookup_spec_def)
            with assms(1) show False by simp
          qed
          then have "(63::nat) < 64 \<and> c = sym 63" by (simp add: sym_def)
          then show ?thesis by blast
        qed
      qed
    qed
  qed
  then show ?thesis unfolding set_alphabet by auto
qed

text \<open>Evaluating the decoder on a literal.\<close>

lemma replicate_numeral: "replicate (numeral v) x = x # replicate (pred_numeral v) x"
  by (simp add: numeral_eq_Suc)

lemma list_update_Cons_numeral: "(x # xs)[numeral v := y] = x # xs[pred_numeral v := y]"
  by (simp add: numeral_eq_Suc)

lemmas decode_eval =
  decodeBase64_def str_def is_space_def endsWith_def Let_def decode_loop_group decode_loop_Nil
  BASE64_LOOKUP_Some lookup_spec_def js_lt0_def js_int32_def replicate_numeral
  list_update_Cons_numeral

lemma decodeBase64_rejects:
  assumes "(\<exists>c \<in> set input. c < 256 \<and> \<not> is_space c \<and> c \<notin> set BASE64_ALPHABET \<and>
              c \<noteq> 45 \<and> c \<noteq> 95 \<and> c \<noteq> 61) \<or>
           (\<exists>i < length (filter (\<lambda>c. \<not> is_space c) input).
              filter (\<lambda>c. \<not> is_space c) input ! i = 61 \<and> i mod 4 < 2)"
  shows "decodeBase64 input = Inl InvalidCharacter"
  using assms
proof
  assume "\<exists>c \<in> set input. c < 256 \<and> \<not> is_space c \<and> c \<notin> set BASE64_ALPHABET \<and>
              c \<noteq> 45 \<and> c \<noteq> 95 \<and> c \<noteq> 61"
  then obtain c where c: "c \<in> set input" "c < 256" "\<not> is_space c" "c \<notin> set BASE64_ALPHABET"
    "c \<noteq> 45" "c \<noteq> 95" "c \<noteq> 61" by blast
  then have "c \<in> set (cleaned_of input)" by (simp add: cleaned_of_def)
  then obtain i where i: "i < length (cleaned_of input)" "cleaned_of input ! i = c"
    by (auto simp add: in_set_conv_nth)
  from c(4-6) have "lookup_spec c = - 1" using in_alphabet by blast
  with c(2) have l: "BASE64_LOOKUP (Some c) = Some (- 1)" by (simp add: BASE64_LOOKUP_Some)
  from i have "padded_of input ! i = c" by (simp add: padded_of_nth)
  with l c(7) have "bad_at (padded_of input) i" by (simp add: bad_at_def js_lt0_def)
  moreover from i(1) length_padded_of_ge [of input] have "i < length (padded_of input)" by linarith
  ultimately show ?thesis by (rule decodeBase64_bad [rotated])
next
  assume "\<exists>i < length (filter (\<lambda>c. \<not> is_space c) input).
              filter (\<lambda>c. \<not> is_space c) input ! i = 61 \<and> i mod 4 < 2"
  then obtain i where i: "i < length (cleaned_of input)" "cleaned_of input ! i = 61" "i mod 4 < 2"
    by (auto simp add: cleaned_of_def)
  from i have "padded_of input ! i = 61" by (simp add: padded_of_nth)
  with i(3) LOOKUP_pad have "bad_at (padded_of input) i" by (simp add: bad_at_def)
  moreover from i(1) length_padded_of_ge [of input] have "i < length (padded_of input)" by linarith
  ultimately show ?thesis by (rule decodeBase64_bad [rotated])
qed

section \<open>Properties of the number model\<close>

declare bit_length.simps [simp del]

lemma bit_length_le: "n < 2 ^ k \<Longrightarrow> bit_length n \<le> k"
proof (induction k arbitrary: n)
  case 0
  then show ?case by (simp add: bit_length.simps)
next
  case (Suc k)
  show ?case
  proof (cases "n = 0")
    case True
    then show ?thesis by (simp add: bit_length.simps)
  next
    case False
    from Suc.prems have "n div 2 < 2 ^ k" by simp
    then have "bit_length (n div 2) \<le> k" by (rule Suc.IH)
    with False show ?thesis by (subst bit_length.simps) simp
  qed
qed

lemma bit_length_eq: "2 ^ k \<le> n \<Longrightarrow> n < 2 ^ Suc k \<Longrightarrow> bit_length n = Suc k"
proof (induction k arbitrary: n)
  case 0
  then have "n = 1" by simp
  then show ?case by (simp add: bit_length.simps)
next
  case (Suc k)
  from Suc.prems have "2 ^ k \<le> n div 2" "n div 2 < 2 ^ Suc k" by simp_all
  then have "bit_length (n div 2) = Suc k" by (rule Suc.IH)
  moreover from Suc.prems have "n \<noteq> 0" by auto
  ultimately show ?case by (subst bit_length.simps) simp
qed

text \<open>Below \<open>2^53\<close> every natural number is a double.\<close>

lemma round_double_small: "n < 2 ^ 53 \<Longrightarrow> round_double n = n"
  using bit_length_le [of n 53] by (simp add: round_double_def)

lemma round_double_numeral [simp]:
  "numeral v < (9007199254740992::nat) \<Longrightarrow> round_double (numeral v) = numeral v"
  "round_double 0 = 0" "round_double 1 = 1" "round_double (Suc 0) = Suc 0"
  by (simp_all add: round_double_small)

text \<open>\<open>2^53 + 1\<close> lies half way between two doubles and goes to the even one.\<close>

lemma round_double_tie: "round_double 9007199254740993 = 9007199254740992"
proof -
  have "bit_length 9007199254740993 = Suc 53"
    by (rule bit_length_eq) simp_all
  then show ?thesis by (simp add: round_double_def)
qed

lemma foldl_decimal:
  "foldl (\<lambda>a c. 10 * a + (c - 48)) a ds = a * 10 ^ length ds + decimal ds"
  by (induction ds arbitrary: a) (simp_all add: algebra_simps)

text \<open>On a run of digits \<open>parseInt\<close> gives the double nearest to the number they denote.\<close>

lemma parseInt_digits:
  assumes "ds \<noteq> []" "list_all is_digit ds"
  shows "js_parseInt10 ds = Some (int (round_double (decimal ds)))"
proof -
  from assms obtain c cs where ds: "ds = c # cs" by (cases ds) auto
  with assms(2) have c: "is_digit c" by simp
  then have n: "\<not> is_space c" "c \<noteq> 45" "c \<noteq> 43"
    by (auto simp add: is_digit_def is_space_def)
  have t: "takeWhile is_digit ds = ds"
    using assms(2) by (simp add: list_all_iff)
  have d: "dropWhile is_space ds = ds" using ds n by simp
  show ?thesis
    unfolding js_parseInt10_def d
    using ds n t by (simp add: Let_def foldl_decimal del: decimal.simps foldl.simps)
qed

lemma parseInt_nonempty: "js_parseInt10 h = Some d \<Longrightarrow> h \<noteq> []"
  by (auto simp add: js_parseInt10_def)


text \<open>How numbers are printed: plain decimal notation up to \<open>10^21\<close>, exponent notation from there on.\<close>

lemma number_toString_samples:
  "number_toString (NumDecimal False 42 2) = str ''42''"
  "number_toString (NumDecimal False 15 1) = str ''1.5''"
  "number_toString (NumDecimal False 1 (- 5)) = str ''0.000001''"
  "number_toString (NumDecimal False 1 22) = str ''1e+21''"
  "number_toString (NumDecimal True 12345 (- 6)) = str ''-1.2345e-7''"
  by (simp_all add: number_toString_def str_def Let_def replicate_numeral)

section \<open>Properties of the guard and the resolver\<close>

lemmas guard_eval =
  isPrivateIp_def toLowerCase_def str_def endsWith_def startsWith_def parseIpv4_def
  isLikelyIpV4_def js_parseInt10_def js_isFinite_def is_digit_def is_space_def Let_def

lemma mapped_loopback_public: "\<not> isPrivateIp (str ''::ffff:127.0.0.1'')"
  by (simp add: guard_eval)

lemma mapped_loopback_forms:
  "\<not> isPrivateIp (str ''[::ffff:7f00:1]'')" "\<not> isPrivateIp (str ''[::ffff:127.0.0.1]'')"
  by (simp_all add: guard_eval)

lemma mapped_loopback_reasons:
  "\<not> isLikelyIpV4 (str ''::ffff:127.0.0.1'')" "parseIpv4 (str ''::ffff:127.0.0.1'') = None"
  "58 \<in> set (str ''::ffff:127.0.0.1'')"
  "str ''::ffff:127.0.0.1'' \<noteq> str ''::1''"
  "\<not> startsWith (str ''::ffff:127.0.0.1'') (str ''fc'')"
  "\<not> startsWith (str ''::ffff:127.0.0.1'') (str ''fd'')"
  "\<not> startsWith (str ''::ffff:127.0.0.1'') (str ''fe80:'')"
  by (simp_all add: guard_eval)

lemma private_192: "isPrivateIp (str ''192.168.1.5'')"
  by (simp add: guard_eval)

lemma calls_append: "calls (w @ w') = calls w @ calls w'"
  by (induction w rule: calls.induct) simp_all

lemma calls_snoc [simp]:
  "calls (w @ [Call r]) = calls w @ [r]" "calls (w @ [Sleep n]) = calls w"
  "calls (w @ [Read]) = calls w" "calls (w @ [Cancel]) = calls w"
  "calls (w @ [TextRead]) = calls w" "calls (w @ [JsonRead]) = calls w"
  by (simp_all add: calls_append)

lemma read_loop_extends: "\<exists>rest. snd (read_loop evs limit n chunks w) = w @ rest"
proof (induction evs limit n chunks w rule: read_loop.induct)
  case (3 evs limit total' chunks w)
  then obtain rest where "snd (read_loop evs limit total' chunks (w @ [Read])) = (w @ [Read]) @ rest"
    by blast
  then show ?case by simp
next
  case (4 v evs limit total' chunks w)
  show ?case
  proof (cases "int (total' + length v) > limit")
    case True
    then show ?thesis by simp
  next
    case False
    with 4 obtain rest where
      "snd (read_loop evs limit (total' + length v) (chunks @ [v]) (w @ [Read])) = (w @ [Read]) @ rest"
      by blast
    with False show ?thesis by simp
  qed
qed simp_all

lemma readResponseBytesWithLimit_extends:
  "\<exists>rest. snd (readResponseBytesWithLimit resp limit w) = w @ rest"
proof (cases "declares_too_large resp limit \<or> body resp = None")
  case True
  then show ?thesis by (auto simp add: readResponseBytesWithLimit_def)
next
  case False
  then obtain evs where b: "body resp = Some evs" by auto
  obtain rest where "snd (read_loop evs limit 0 [] w) = w @ rest"
    using read_loop_extends by blast
  with False b show ?thesis
    by (auto simp add: readResponseBytesWithLimit_def split: prod.splits sum.splits)
qed

lemma read_loop_error:
  "fst (read_loop evs limit n chunks w) = Inl e \<Longrightarrow> e = TooLarge \<or> e = TransportFailure"
  by (induction evs limit n chunks w rule: read_loop.induct) (auto split: if_splits)

lemma readResponseBytesWithLimit_error:
  "readResponseBytesWithLimit resp limit w = (Inl e, w') \<Longrightarrow> e = TooLarge \<or> e = TransportFailure"
  using read_loop_error [of "the (body resp)" limit 0 "[]" w e]
  by (auto simp add: readResponseBytesWithLimit_def split: option.splits sum.splits prod.splits if_splits)

lemma resolveImage_blocked:
  assumes "trim s \<noteq> []" "\<not> isDataUrl s" "parse s = Some u"
    and "toLowerCase (protocol u) = str ''http:'' \<or> toLowerCase (protocol u) = str ''https:''"
    and "isPrivateIp (hostname u)"
    and "allowPrivateNetwork options = None \<or> allowPrivateNetwork options = Some False"
  shows "resolveImage parse t (JStr s) options w = (Inl BlockedBySsrfPolicy, w)"
  using assms
  by (auto simp add: resolveImage_def assertAllowedRemoteUrl_def Let_def)

text \<open>A remote reference that passes the guard: the request is sent, whatever follows.\<close>

lemma resolveImage_fetches:
  assumes "trim s \<noteq> []" "\<not> isDataUrl s" "parse s = Some u"
    and "toLowerCase (protocol u) = str ''http:'' \<or> toLowerCase (protocol u) = str ''https:''"
    and "\<not> isPrivateIp (hostname u)"
  shows "fst (resolveImage parse t (JStr s) options w) \<noteq> Inl BlockedBySsrfPolicy \<and>
         fst (resolveImage parse t (JStr s) options w) \<noteq> Inl UnsupportedScheme \<and>
         (\<exists>rest. snd (resolveImage parse t (JStr s) options w) = w @ Call (image_request u) # rest)"
proof -
  let ?r = "image_request u"
  let ?w1 = "w @ [Call ?r]"
  let ?limit = "case maxBytes options of Some m \<Rightarrow> m | None \<Rightarrow> 10 * 1024 * 1024"
  have a: "assertAllowedRemoteUrl u (case allowPrivateNetwork options of Some b \<Rightarrow> b | None \<Rightarrow> False) = Inr ()"
    using assms(4,5) by (auto simp add: assertAllowedRemoteUrl_def Let_def)
  have f: "fetchWithTimeout t \<lparr>req_method = str ''GET'', req_url = href u,
             req_headers = [(str ''Accept'', str ''image/*'')], req_body = NoBody\<rparr> w =
           (t (length (calls w)) ?r, ?w1)"
    by (simp add: fetchWithTimeout_def image_request_def)
  show ?thesis
  proof (cases "t (length (calls w)) ?r")
    case Throws
    with assms(1-3) a f show ?thesis
      by (simp add: resolveImage_def Let_def)
  next
    case (Responds resp)
    obtain res w2 where rr: "readResponseBytesWithLimit resp ?limit ?w1 = (res, w2)"
      by (cases "readResponseBytesWithLimit resp ?limit ?w1")
    obtain rest where "snd (readResponseBytesWithLimit resp ?limit ?w1) = ?w1 @ rest"
      using readResponseBytesWithLimit_extends by blast
    with rr have w2: "w2 = w @ Call ?r # rest" by simp
    from assms(1-3) a f Responds rr w2 readResponseBytesWithLimit_error [of resp ?limit ?w1 _ w2]
    show ?thesis
      by (auto simp add: resolveImage_def Let_def split: option.splits sum.splits)
  qed
qed

text \<open>
  A remote reference that passes the guard and is answered by an image response: the
  outcome is that of the bounded read.
\<close>

lemma resolveImage_reads:
  assumes "trim s \<noteq> []" "\<not> isDataUrl s" "parse s = Some u"
    and "assertAllowedRemoteUrl u
           (case allowPrivateNetwork options of Some b \<Rightarrow> b | None \<Rightarrow> False) = Inr ()"
    and "t (length (calls w)) (image_request u) = Responds resp"
    and "image_response resp"
    and "readResponseBytesWithLimit resp (byte_ceiling options) (w @ [Call (image_request u)]) =
           (Inl err, w2)"
  shows "resolveImage parse t (JStr s) options w = (Inl err, w2)"
proof -
  have f: "fetchWithTimeout t \<lparr>req_method = str ''GET'', req_url = href u,
             req_headers = [(str ''Accept'', str ''image/*'')], req_body = NoBody\<rparr> w =
           (Responds resp, w @ [Call (image_request u)])"
    using assms(5) by (simp add: fetchWithTimeout_def image_request_def)
  from assms(6) obtain ct where ct: "ok resp" "normalizeMime (content_type resp) = Some ct"
    "startsWith ct (str ''image/'')"
    by (auto simp add: image_response_def split: option.splits)
  then have "ct \<noteq> []" by (auto simp add: startsWith_def str_def)
  with assms(1-4,7) f ct show ?thesis
    by (simp add: resolveImage_def Let_def byte_ceiling_def)
qed

lemma submit_blocked:
  assumes "isImageEditModel (selectModel cfg e reqBody)" "images = img # others"
    and "trim img \<noteq> []" "\<not> isDataUrl img" "parse img = Some u"
    and "toLowerCase (protocol u) = str ''http:'' \<or> toLowerCase (protocol u) = str ''https:''"
    and "isPrivateIp (hostname u)"
    and "\<not> getEnvBool e (str ''ALLOW_PRIVATE_IMAGE_FETCH'') False"
  shows "submit cfg e parse t apiKey reqBody prompt images w = (Inl BlockedBySsrfPolicy, w)"
proof -
  have "resolveImage parse t (JStr img)
          \<lparr>timeoutMs = Some (getEnvInt e (str ''IMAGE_FETCH_TIMEOUT_MS'') 10000),
           maxBytes = Some (getEnvInt e (str ''MAX_IMAGE_BYTES'') (10 * 1024 * 1024)),
           allowPrivateNetwork = Some (getEnvBool e (str ''ALLOW_PRIVATE_IMAGE_FETCH'') False)\<rparr> w =
        (Inl BlockedBySsrfPolicy, w)"
    using assms(3-7) by (rule resolveImage_blocked) (simp add: assms(8))
  with assms(1,2) show ?thesis
    by (simp add: submit_def Let_def)
qed

lemma handleModelScope_blocked:
  assumes "isImageEditModel (selectModel cfg e reqBody)" "images = img # others"
    and "trim img \<noteq> []" "\<not> isDataUrl img" "parse img = Some u"
    and "toLowerCase (protocol u) = str ''http:'' \<or> toLowerCase (protocol u) = str ''https:''"
    and "isPrivateIp (hostname u)"
    and "\<not> getEnvBool e (str ''ALLOW_PRIVATE_IMAGE_FETCH'') False"
  shows "handleModelScope cfg e parse t apiKey reqBody prompt images w = (Inl BlockedBySsrfPolicy, w)"
proof -
  have "submit cfg e parse t apiKey reqBody prompt images w = (Inl BlockedBySsrfPolicy, w)"
    using assms by (rule submit_blocked)
  then show ?thesis by (simp add: handleModelScope_def)
qed

lemma trim_sample: "trim (str ''http://192.168.1.5/a.png'') \<noteq> []"
  by (simp add: trim_def str_def is_space_def)

lemma sample_edit_model:
  "isImageEditModel (selectModel sample_config no_env \<lparr>model = None, size_opt = None\<rparr>)"
  by (simp add: isImageEditModel_def selectModel_def sample_config_def toLowerCase_def str_def
      startsWith_def)

lemma parseDataUrlToBytes_mime:
  "parseDataUrlToBytes d = Inr (m, bs) \<Longrightarrow> startsWith m (str ''image/'')"
  by (auto simp add: parseDataUrlToBytes_def Let_def split: option.splits if_splits sum.splits)

lemmas encode_eval =
  encodeBase64_def encode_loop.simps alphabet_at_def BASE64_ALPHABET_def str_def Let_def

lemma enc_abc: "encodeBase64 [65, 66, 67] = str ''QUJD''"
  by (simp add: encode_eval)

lemma parse_sample_data_url:
  "parseDataUrlToBytes (str ''data:image/png;base64,QUJD'') = Inr (str ''image/png'', [65, 66, 67])"
  by (simp add: parseDataUrlToBytes_def slice_def normalizeMime_def trim_def toLowerCase_def
      startsWith_def decode_eval)

lemma resolve_sample_data_url:
  "resolveImage sample_parse dead_transport (JStr (str ''data:image/png;base64,QUJD''))
     \<lparr>timeoutMs = None, maxBytes = None, allowPrivateNetwork = None\<rparr> idle_world =
   (Inr \<lparr>url = str ''data:image/png;base64,QUJD'', mime = str ''image/png'', bytes = [65, 66, 67],
          base64 = str ''QUJD'', dataUrl = str ''data:image/png;base64,QUJD'', size' = 3\<rparr>,
    idle_world)"
proof -
  have t: "trim (str ''data:image/png;base64,QUJD'') \<noteq> []"
    by (simp add: trim_def str_def is_space_def)
  have d: "isDataUrl (str ''data:image/png;base64,QUJD'')"
    by (simp add: isDataUrl_def startsWith_def str_def)
  show ?thesis
    using t d by (simp add: resolveImage_def parse_sample_data_url enc_abc Let_def) (simp add: str_def)
qed

lemma trim_sample6: "trim (str ''http://[::ffff:127.0.0.1]/a.png'') \<noteq> []"
  by (simp add: trim_def str_def is_space_def)

section \<open>Properties of the bounded read\<close>

lemma chunk_size_simps: "chunk_size None = 0" "chunk_size (Some b) = length b"
  by (simp_all add: chunk_size_def)

lemma read_loop_exceeds:
  "int (n + sum_list (map chunk_size pre)) \<le> limit \<Longrightarrow>
   int (n + sum_list (map chunk_size pre) + length v) > limit \<Longrightarrow>
   read_loop (map Chunk pre @ Chunk (Some v) # rest) limit n chunks w =
     (Inl TooLarge, w @ replicate (length pre + 1) Read @ [Cancel])"
proof (induction pre arbitrary: n chunks w)
  case Nil
  then show ?case by simp
next
  case (Cons c pre)
  show ?case
  proof (cases c)
    case None
    with Cons.prems have "int (n + sum_list (map chunk_size pre)) \<le> limit"
      "int (n + sum_list (map chunk_size pre) + length v) > limit"
      by (simp_all add: chunk_size_simps)
    then show ?thesis using None
      by (simp add: Cons.IH)
  next
    case (Some b)
    with Cons.prems have p: "int ((n + length b) + sum_list (map chunk_size pre)) \<le> limit"
      "int ((n + length b) + sum_list (map chunk_size pre) + length v) > limit"
      by (simp_all add: chunk_size_simps add.assoc)
    then have "\<not> int (n + length b) > limit" by linarith
    then show ?thesis using Some p
      by (simp add: Cons.IH)
  qed
qed

lemma declares_too_large_parsed:
  "content_length resp = Some h \<Longrightarrow> js_parseInt10 h = Some d \<Longrightarrow> js_isFinite (Some d) \<Longrightarrow>
   d > limit \<Longrightarrow> declares_too_large resp limit"
  using parseInt_nonempty [of h d] by (simp add: declares_too_large_def)

lemma declares_too_large_digits:
  assumes "content_length resp = Some h" "h \<noteq> []" "list_all is_digit h"
    and "decimal h < 2 ^ 53" "int (decimal h) > limit"
  shows "declares_too_large resp limit"
proof -
  have p: "js_parseInt10 h = Some (int (decimal h))"
    using parseInt_digits [OF assms(2,3)] assms(4) by (simp add: round_double_small)
  have "int (decimal h) < 2 ^ 53" using assms(4) by (metis of_nat_less_iff of_nat_numeral of_nat_power)
  then have "\<bar>int (decimal h)\<bar> < 2 ^ 1024" by simp
  then have "js_isFinite (Some (int (decimal h)))" by (simp add: js_isFinite_def)
  with assms(1) p show ?thesis using assms(5) by (rule declares_too_large_parsed)
qed

lemma parse_50MB: "js_parseInt10 (str ''52428800'') = Some 52428800"
  by (simp add: js_parseInt10_def str_def is_space_def is_digit_def Let_def)

lemma finite_50MB: "js_isFinite (Some 52428800)"
  by (simp add: js_isFinite_def)

lemma parse_tie: "js_parseInt10 (str ''9007199254740993'') = Some 9007199254740992"
  by (simp add: js_parseInt10_def str_def is_space_def is_digit_def Let_def round_double_tie
      del: round_double_numeral)

lemma trim_sample_public: "trim (str ''http://example.com/a.png'') \<noteq> []"
  by (simp add: trim_def str_def is_space_def)

lemma example_public: "\<not> isPrivateIp (str ''example.com'')"
  by (simp add: guard_eval)

section \<open>Properties of the passthrough filter\<close>

lemma map_filter_nonblank:
  "map JStr (List.map_filter
      (\<lambda>u. case u of JStr s \<Rightarrow> if trim s \<noteq> [] then Some s else None | _ \<Rightarrow> None) us) =
   filter is_nonblank_string us"
  by (induction us) (auto simp add: List.map_filter_simps is_nonblank_string_def split: json.splits)

section \<open>Properties of the extraction\<close>

lemma trim_Nil: "trim [] = []"
  by (simp add: trim_def)

lemma string_prop_not_obj:
  "string_prop (JArr xs) k = None"
  by (simp add: string_prop_def get_prop_def)

lemma pushAny_length:
  "length (filter keep_extracted (pushAny (Some it))) = (if valid_ref it then 1 else 0)"
proof (cases it)
  case (JStr s)
  then show ?thesis
    by (auto simp add: pushAny_def truthy_def valid_ref_def keep_extracted_def trim_Nil)
next
  case (JObj fs)
  then show ?thesis
    by (auto simp add: pushAny_def truthy_def valid_ref_def keep_extracted_def nonblank_def trim_Nil
        Let_def split: option.splits)
next
  case (JArr xs)
  then show ?thesis
    by (simp add: pushAny_def truthy_def valid_ref_def string_prop_not_obj Let_def)
qed (simp_all add: pushAny_def truthy_def valid_ref_def)

lemma length_refs_of: "length (refs_of arr) = length (filter valid_ref arr)"
  by (induction arr) (simp_all add: refs_of_def pushAny_length)

lemma tryArray_None: "tryArray None = []"
  by (simp add: tryArray_def)

lemma pushAny_None: "pushAny None = []"
  by (simp add: pushAny_def truthy_def)

lemma tryArray_refs: "filter keep_extracted (tryArray (Some (JArr arr))) = refs_of arr"
  by (simp add: tryArray_def refs_of_def)

section \<open>Properties of the polling loop\<close>

declare poll_loop.simps [simp del]

lemma poll_loop_exhausted: "maxAttempts \<le> i \<Longrightarrow> poll_loop cfg e t apiKey taskId i w = (Inl PollTimeout, w)"
  by (subst poll_loop.simps) simp

text \<open>One iteration of the loop, by the answers of the transport.\<close>

lemma poll_loop_unfold:
  assumes "i < maxAttempts"
  shows "poll_loop cfg e t apiKey taskId i w =
     (case t (length (calls w)) (poll_request cfg e apiKey taskId) of
        Throws \<Rightarrow> (Inl TransportFailure, w @ [Sleep 5000, Call (poll_request cfg e apiKey taskId)])
      | Responds first \<Rightarrow>
          (case (if \<not> ok first \<and> task_type e \<noteq> []
                 then (t (Suc (length (calls w))) (plain_request cfg apiKey taskId),
                       w @ [Sleep 5000, Call (poll_request cfg e apiKey taskId),
                            Call (plain_request cfg apiKey taskId)])
                 else (Responds first, w @ [Sleep 5000, Call (poll_request cfg e apiKey taskId)])) of
             (Throws, w3) \<Rightarrow> (Inl TransportFailure, w3)
           | (Responds checkResponse, w3) \<Rightarrow>
               if \<not> ok checkResponse then poll_loop cfg e t apiKey taskId (i + 1) w3
               else
                 (case resp_json checkResponse of
                    None \<Rightarrow> (Inl MalformedResponse, w3 @ [JsonRead])
                  | Some JNull \<Rightarrow> (Inl JsTypeError, w3 @ [JsonRead])
                  | Some checkData \<Rightarrow>
                      if get_prop checkData (str ''task_status'') = Some (JStr (str ''SUCCEED''))
                      then (Inr (render_result (extractImages (Some checkData))), w3 @ [JsonRead])
                      else if get_prop checkData (str ''task_status'') = Some (JStr (str ''FAILED''))
                      then (Inl (UpstreamTaskFailed checkData), w3 @ [JsonRead])
                      else poll_loop cfg e t apiKey taskId (i + 1) (w3 @ [JsonRead]))))"
proof -
  have q: "\<lparr>req_method = str ''GET'', req_url = apiUrl cfg @ str ''/tasks/'' @ js_toString taskId,
            req_headers =
              (if task_type e \<noteq> []
               then [(str ''Authorization'', str ''Bearer '' @ apiKey)] @
                    [(str ''X-ModelScope-Task-Type'', task_type e)]
               else [(str ''Authorization'', str ''Bearer '' @ apiKey)]),
            req_body = NoBody\<rparr> = poll_request cfg e apiKey taskId"
    by (simp add: poll_request_def)
  have q': "\<lparr>req_method = str ''GET'', req_url = apiUrl cfg @ str ''/tasks/'' @ js_toString taskId,
            req_headers = [(str ''Authorization'', str ''Bearer '' @ apiKey)],
            req_body = NoBody\<rparr> = plain_request cfg apiKey taskId"
    by (simp add: plain_request_def)
  show ?thesis
    apply (subst poll_loop.simps)
    apply (simp only: assms if_True Let_def task_type_def [symmetric] q q' fetchWithTimeout_def)
    apply (cases "t (length (calls w)) (poll_request cfg e apiKey taskId)")
     apply (simp add: calls_append)
    apply (cases "t (Suc (length (calls w))) (plain_request cfg apiKey taskId)")
     apply (simp add: calls_append split: option.splits json.splits)
    apply (simp add: calls_append split: option.splits json.splits)
    done
qed

text \<open>
  An attempt either ends the loop with a result other than the timeout, or hands over to
  the next iteration; in both cases it adds the trace of one attempt to the world.
\<close>

lemma poll_attempt:
  assumes "i < maxAttempts"
  shows "\<exists>a. poll_loop cfg e t apiKey taskId i w =
                poll_loop cfg e t apiKey taskId (i + 1)
                  (w @ attempt_events (poll_request cfg e apiKey taskId)
                         (plain_request cfg apiKey taskId) a) \<or>
              (\<exists>r. r \<noteq> Inl PollTimeout \<and>
                    poll_loop cfg e t apiKey taskId i w =
                      (r, w @ attempt_events (poll_request cfg e apiKey taskId)
                                (plain_request cfg apiKey taskId) a))"
proof -
  let ?q = "poll_request cfg e apiKey taskId"
  let ?q' = "plain_request cfg apiKey taskId"
  let ?P = "\<lambda>a. poll_loop cfg e t apiKey taskId i w =
                poll_loop cfg e t apiKey taskId (i + 1) (w @ attempt_events ?q ?q' a) \<or>
              (\<exists>r. r \<noteq> Inl PollTimeout \<and>
                    poll_loop cfg e t apiKey taskId i w = (r, w @ attempt_events ?q ?q' a))"
  note u = poll_loop_unfold [OF assms, of cfg e t apiKey taskId w]
  have fin: "?P (b, True)"
    if "poll_loop cfg e t apiKey taskId i w =
        (case resp_json cr of
           None \<Rightarrow> (Inl MalformedResponse, w3 @ [JsonRead])
         | Some JNull \<Rightarrow> (Inl JsTypeError, w3 @ [JsonRead])
         | Some checkData \<Rightarrow>
             if get_prop checkData (str ''task_status'') = Some (JStr (str ''SUCCEED''))
             then (Inr (render_result (extractImages (Some checkData))), w3 @ [JsonRead])
             else if get_prop checkData (str ''task_status'') = Some (JStr (str ''FAILED''))
             then (Inl (UpstreamTaskFailed checkData), w3 @ [JsonRead])
             else poll_loop cfg e t apiKey taskId (i + 1) (w3 @ [JsonRead]))"
      and "w3 @ [JsonRead] = w @ attempt_events ?q ?q' (b, True)"
    for cr w3 b
    using that by (auto split: option.splits json.splits if_splits)
  show ?thesis
  proof (cases "t (length (calls w)) ?q")
    case Throws
    with u have "?P (False, False)" by (simp add: attempt_events_def)
    then show ?thesis by blast
  next
    case (Responds first)
    show ?thesis
    proof (cases "\<not> ok first \<and> task_type e \<noteq> []")
      case True
      show ?thesis
      proof (cases "t (Suc (length (calls w))) ?q'")
        case Throws
        with u Responds True have "?P (True, False)" by (simp add: attempt_events_def)
        then show ?thesis by blast
      next
        case second: (Responds cr)
        show ?thesis
        proof (cases "ok cr")
          case False
          with u Responds True second have "?P (True, False)" by (simp add: attempt_events_def)
          then show ?thesis by blast
        next
          case ok: True
          have "?P (True, True)"
          proof (rule fin)
            show "poll_loop cfg e t apiKey taskId i w =
              (case resp_json cr of
                 None \<Rightarrow> (Inl MalformedResponse, (w @ [Sleep 5000, Call ?q, Call ?q']) @ [JsonRead])
               | Some JNull \<Rightarrow> (Inl JsTypeError, (w @ [Sleep 5000, Call ?q, Call ?q']) @ [JsonRead])
               | Some checkData \<Rightarrow>
                   if get_prop checkData (str ''task_status'') = Some (JStr (str ''SUCCEED''))
                   then (Inr (render_result (extractImages (Some checkData))),
                         (w @ [Sleep 5000, Call ?q, Call ?q']) @ [JsonRead])
                   else if get_prop checkData (str ''task_status'') = Some (JStr (str ''FAILED''))
                   then (Inl (UpstreamTaskFailed checkData),
                         (w @ [Sleep 5000, Call ?q, Call ?q']) @ [JsonRead])
                   else poll_loop cfg e t apiKey taskId (i + 1)
                          ((w @ [Sleep 5000, Call ?q, Call ?q']) @ [JsonRead]))"
              using u Responds True second ok by simp
            show "(w @ [Sleep 5000, Call ?q, Call ?q']) @ [JsonRead] =
                  w @ attempt_events ?q ?q' (True, True)"
              by (simp add: attempt_events_def)
          qed
          then show ?thesis by blast
        qed
      qed
    next
      case nr: False
      show ?thesis
      proof (cases "ok first")
        case False
        with u Responds nr have "?P (False, False)" by (simp add: attempt_events_def)
        then show ?thesis by blast
      next
        case ok: True
        have "?P (False, True)"
        proof (rule fin)
          show "poll_loop cfg e t apiKey taskId i w =
              (case resp_json first of
                 None \<Rightarrow> (Inl MalformedResponse, (w @ [Sleep 5000, Call ?q]) @ [JsonRead])
               | Some JNull \<Rightarrow> (Inl JsTypeError, (w @ [Sleep 5000, Call ?q]) @ [JsonRead])
               | Some checkData \<Rightarrow>
                   if get_prop checkData (str ''task_status'') = Some (JStr (str ''SUCCEED''))
                   then (Inr (render_result (extractImages (Some checkData))),
                         (w @ [Sleep 5000, Call ?q]) @ [JsonRead])
                   else if get_prop checkData (str ''task_status'') = Some (JStr (str ''FAILED''))
                   then (Inl (UpstreamTaskFailed checkData), (w @ [Sleep 5000, Call ?q]) @ [JsonRead])
                   else poll_loop cfg e t apiKey taskId (i + 1)
                          ((w @ [Sleep 5000, Call ?q]) @ [JsonRead]))"
            using u Responds nr ok by simp
          show "(w @ [Sleep 5000, Call ?q]) @ [JsonRead] = w @ attempt_events ?q ?q' (False, True)"
            by (simp add: attempt_events_def)
        qed
        then show ?thesis by blast
      qed
    qed
  qed
qed

text \<open>
  The trace of the whole loop: at most \<open>maxAttempts - i\<close> attempts, one after the other,
  and all of them when the loop ends with the timeout.
\<close>

lemma poll_loop_shape:
  "\<exists>as. length as \<le> maxAttempts - i \<and> (i < maxAttempts \<longrightarrow> as \<noteq> []) \<and>
         snd (poll_loop cfg e t apiKey taskId i w) =
           w @ concat (map (attempt_events (poll_request cfg e apiKey taskId)
                              (plain_request cfg apiKey taskId)) as) \<and>
         (fst (poll_loop cfg e t apiKey taskId i w) = Inl PollTimeout \<longrightarrow>
          length as = maxAttempts - i)"
proof (induction "maxAttempts - i" arbitrary: i w)
  case 0
  then have "poll_loop cfg e t apiKey taskId i w = (Inl PollTimeout, w)"
    by (intro poll_loop_exhausted) simp
  with 0 show ?case by (intro exI [of _ "[]"]) simp
next
  case (Suc n)
  let ?q = "poll_request cfg e apiKey taskId"
  let ?q' = "plain_request cfg apiKey taskId"
  from Suc.hyps(2) have i: "i < maxAttempts" by simp
  from poll_attempt [OF i, of cfg e t apiKey taskId w] obtain a where
    a: "poll_loop cfg e t apiKey taskId i w =
          poll_loop cfg e t apiKey taskId (i + 1) (w @ attempt_events ?q ?q' a) \<or>
        (\<exists>r. r \<noteq> Inl PollTimeout \<and>
              poll_loop cfg e t apiKey taskId i w = (r, w @ attempt_events ?q ?q' a))"
    by blast
  then show ?case
  proof
    assume c: "poll_loop cfg e t apiKey taskId i w =
          poll_loop cfg e t apiKey taskId (i + 1) (w @ attempt_events ?q ?q' a)"
    from Suc.hyps(2) have "n = maxAttempts - (i + 1)" by simp
    from Suc.hyps(1) [OF this, of "w @ attempt_events ?q ?q' a"] obtain as where
      as: "length as \<le> maxAttempts - (i + 1)"
        "snd (poll_loop cfg e t apiKey taskId (i + 1) (w @ attempt_events ?q ?q' a)) =
           (w @ attempt_events ?q ?q' a) @ concat (map (attempt_events ?q ?q') as)"
        "fst (poll_loop cfg e t apiKey taskId (i + 1) (w @ attempt_events ?q ?q' a)) = Inl PollTimeout
           \<longrightarrow> length as = maxAttempts - (i + 1)"
      by blast
    show ?thesis
    proof (intro exI [of _ "a # as"] conjI impI)
      from as(1) i show "length (a # as) \<le> maxAttempts - i" by simp
      show "a # as \<noteq> []" by simp
      from as(2) c show "snd (poll_loop cfg e t apiKey taskId i w) =
           w @ concat (map (attempt_events ?q ?q') (a # as))" by simp
      assume "fst (poll_loop cfg e t apiKey taskId i w) = Inl PollTimeout"
      with as(3) c i show "length (a # as) = maxAttempts - i" by simp
    qed
  next
    assume "\<exists>r. r \<noteq> Inl PollTimeout \<and>
              poll_loop cfg e t apiKey taskId i w = (r, w @ attempt_events ?q ?q' a)"
    then obtain r where r: "r \<noteq> Inl PollTimeout"
      "poll_loop cfg e t apiKey taskId i w = (r, w @ attempt_events ?q ?q' a)" by blast
    show ?thesis
    proof (intro exI [of _ "[a]"] conjI impI)
      from i show "length [a] \<le> maxAttempts - i" by simp
      show "[a] \<noteq> []" by simp
      from r(2) show "snd (poll_loop cfg e t apiKey taskId i w) =
           w @ concat (map (attempt_events ?q ?q') [a])" by simp
      assume "fst (poll_loop cfg e t apiKey taskId i w) = Inl PollTimeout"
      with r show "length [a] = maxAttempts - i" by simp
    qed
  qed
qed

lemma polled_add:
  "polled cfg e apiKey taskId k (polled cfg e apiKey taskId j w) = polled cfg e apiKey taskId (j + k) w"
  by (simp add: polled_def replicate_add)

lemma polled_calls: "length (calls (polled cfg e apiKey taskId k w)) = length (calls w) + k"
  by (induction k) (simp_all add: polled_def calls_append)

text \<open>An attempt whose first query is answered \<open>ok\<close> with a task status.\<close>

lemma poll_step:
  assumes "i < maxAttempts"
    and "t (length (calls w)) (poll_request cfg e apiKey taskId) = Responds p"
    and "reports p st"
  shows "poll_loop cfg e t apiKey taskId i w =
           (if st = str ''SUCCEED''
            then (Inr (render_result (extractImages (resp_json p))), polled cfg e apiKey taskId 1 w)
            else if st = str ''FAILED''
            then (Inl (UpstreamTaskFailed (the (resp_json p))), polled cfg e apiKey taskId 1 w)
            else poll_loop cfg e t apiKey taskId (i + 1) (polled cfg e apiKey taskId 1 w))"
proof -
  from assms(3) obtain d where d: "ok p" "resp_json p = Some d" "d \<noteq> JNull"
    "get_prop d (str ''task_status'') = Some (JStr st)"
    by (auto simp add: reports_def split: option.splits)
  show ?thesis
    unfolding poll_loop_unfold [OF assms(1)]
    using assms(2) d by (cases d) (simp_all add: polled_def)
qed

lemma poll_pending_run:
  assumes "\<forall>j<k. \<exists>p. t (length (calls w) + j) (poll_request cfg e apiKey taskId) = Responds p \<and>
                      reports p st"
    and "st \<noteq> str ''SUCCEED''" "st \<noteq> str ''FAILED''" "i + k \<le> maxAttempts"
  shows "poll_loop cfg e t apiKey taskId i w =
         poll_loop cfg e t apiKey taskId (i + k) (polled cfg e apiKey taskId k w)"
  using assms
proof (induction k arbitrary: i w)
  case 0
  then show ?case by (simp add: polled_def)
next
  case (Suc k)
  let ?w1 = "polled cfg e apiKey taskId 1 w"
  from Suc.prems(1) obtain p where p: "t (length (calls w)) (poll_request cfg e apiKey taskId) = Responds p"
    "reports p st" by force
  from Suc.prems(4) have i: "i < maxAttempts" by simp
  have "poll_loop cfg e t apiKey taskId i w = poll_loop cfg e t apiKey taskId (i + 1) ?w1"
    using poll_step [where i = i and t = t and w = w and p = p and st = st, OF i p] Suc.prems(2,3)
    by simp
  also have "\<dots> = poll_loop cfg e t apiKey taskId (i + 1 + k) (polled cfg e apiKey taskId k ?w1)"
  proof (rule Suc.IH)
    show "\<forall>j<k. \<exists>p. t (length (calls ?w1) + j) (poll_request cfg e apiKey taskId) = Responds p \<and>
                      reports p st"
    proof (intro allI impI)
      fix j assume "j < k"
      then have "Suc j < Suc k" by simp
      with Suc.prems(1) have "\<exists>p. t (length (calls w) + Suc j) (poll_request cfg e apiKey taskId) = Responds p \<and>
                      reports p st" by blast
      then show "\<exists>p. t (length (calls ?w1) + j) (poll_request cfg e apiKey taskId) = Responds p \<and>
                      reports p st" by (simp add: polled_calls)
    qed
    show "st \<noteq> str ''SUCCEED''" "st \<noteq> str ''FAILED''" by fact+
    from Suc.prems(4) show "i + 1 + k \<le> maxAttempts" by simp
  qed
  finally show ?case by (simp add: polled_add)
qed

text \<open>Attempts whose queries are all answered with a status outside 200 to 299.\<close>

lemma poll_unavailable_run:
  assumes "\<forall>m r. length (calls w) \<le> m \<longrightarrow> (\<exists>p. t m r = Responds p \<and> \<not> ok p)"
    and "i + k \<le> maxAttempts"
  shows "poll_loop cfg e t apiKey taskId i w =
         poll_loop cfg e t apiKey taskId (i + k)
           (w @ concat (replicate k (attempt_events (poll_request cfg e apiKey taskId)
                                        (plain_request cfg apiKey taskId) (task_type e \<noteq> [], False))))"
  using assms
proof (induction k arbitrary: i w)
  case 0
  then show ?case by simp
next
  case (Suc k)
  let ?q = "poll_request cfg e apiKey taskId"
  let ?q' = "plain_request cfg apiKey taskId"
  let ?a = "attempt_events ?q ?q' (task_type e \<noteq> [], False)"
  from Suc.prems(1) obtain p where p: "t (length (calls w)) ?q = Responds p" "\<not> ok p" by force
  from Suc.prems(1) obtain p' where p': "t (Suc (length (calls w))) ?q' = Responds p'" "\<not> ok p'"
    by (metis le_SucI order_refl)
  from Suc.prems(2) have i: "i < maxAttempts" by simp
  have "poll_loop cfg e t apiKey taskId i w = poll_loop cfg e t apiKey taskId (i + 1) (w @ ?a)"
    unfolding poll_loop_unfold [OF i]
    using p p' by (simp add: attempt_events_def)
  also have "\<dots> = poll_loop cfg e t apiKey taskId (i + 1 + k) ((w @ ?a) @ concat (replicate k ?a))"
  proof (rule Suc.IH)
    show "\<forall>m r. length (calls (w @ ?a)) \<le> m \<longrightarrow> (\<exists>p. t m r = Responds p \<and> \<not> ok p)"
      using Suc.prems(1) by (simp add: calls_append attempt_events_def)
    from Suc.prems(2) show "i + 1 + k \<le> maxAttempts" by simp
  qed
  finally show ?case by simp
qed

lemma handleModelScope_polls:
  assumes "submit cfg e parse t apiKey reqBody prompt images w = (Inr sr, w1)"
    and "ok sr" "resp_json sr = Some sd" "sd \<noteq> JNull"
    and "get_prop sd (str ''task_id'') = Some tid" "truthy (Some tid)"
  shows "handleModelScope cfg e parse t apiKey reqBody prompt images w =
         poll_loop cfg e t apiKey tid 0 (w1 @ [JsonRead])"
  using assms by (cases sd) (simp_all add: handleModelScope_def)

lemma status_distinct:
  "str ''PENDING'' \<noteq> str ''SUCCEED''" "str ''PENDING'' \<noteq> str ''FAILED''"
  "str ''FAILED'' \<noteq> str ''SUCCEED''"
  by (simp_all add: str_def)

lemma sample_model: "selectModel sample_config no_env generation_body = str ''Qwen/Qwen-Image''"
  by (simp add: selectModel_def generation_body_def enforceSupportedModels_def
      getEnvBool_def no_env_def trim_def toLowerCase_def str_def is_space_def)

lemma sample_model_generates: "\<not> isImageEditModel (str ''Qwen/Qwen-Image'')"
  by (simp add: isImageEditModel_def toLowerCase_def startsWith_def str_def)

lemma sample_fields:
  "apiUrl sample_config = str ''https://api.example/v1''" "size_opt generation_body = None"
  by (simp_all add: sample_config_def generation_body_def)

lemma submit_sample:
  assumes "t 0 generation_request = Responds sr"
  shows "submit sample_config no_env sample_parse t (str ''ms-key'') generation_body (str ''a cat'') []
           idle_world = (Inr sr, [Call generation_request])"
proof -
  have u: "str ''https://api.example/v1'' @ str ''/images/generations'' =
           str ''https://api.example/v1/images/generations''"
    by (simp add: str_def)
  have k: "str ''Bearer '' @ str ''ms-key'' = str ''Bearer ms-key''"
    by (simp add: str_def)
  have p: "str ''a cat'' \<noteq> []"
    by (simp add: str_def)
  have "fetchWithTimeout t generation_request idle_world = (Responds sr, [Call generation_request])"
    using assms by (simp add: fetchWithTimeout_def idle_world_def)
  then show ?thesis
    by (simp add: submit_def Let_def sample_model sample_model_generates sample_fields u k p
        generation_request_def)
qed

lemma sample_reports:
  "reports (json_response pending_payload) (str ''PENDING'')"
  "reports (json_response succeed_payload) (str ''SUCCEED'')"
  "reports (json_response failed_payload) (str ''FAILED'')"
  by (simp_all add: reports_def ok_def json_response_def get_prop_def pending_payload_def
      succeed_payload_def failed_payload_def)

lemma sample_handle:
  "ok (json_response handle_payload)"
  "resp_json (json_response handle_payload) = Some handle_payload"
  "handle_payload \<noteq> JNull"
  "get_prop handle_payload (str ''task_id'') = Some (JStr (str ''x''))"
  "truthy (Some (JStr (str ''x'')))"
  by (simp_all add: ok_def json_response_def handle_payload_def get_prop_def truthy_def str_def)

lemma resp_json_json_response: "resp_json (json_response j) = Some j"
  by (simp add: json_response_def)

lemma sample_render:
  "render_result (extractImages (Some succeed_payload)) = str ''![Generated Image](http://a/1.png)''"
  by (simp add: render_result_def extractImages_def opt_prop_def get_prop_def tryArray_def
      pushAny_def truthy_def keep_extracted_def toMarkdown_def succeed_payload_def startsWith_def
      trim_def str_def is_space_def Let_def)

lemma sample_task_type: "task_type no_env \<noteq> []"
  by (simp add: task_type_def no_env_def trim_def str_def is_space_def)

lemma unavailable_not_ok: "\<not> ok unavailable_response"
  by (simp add: ok_def unavailable_response_def)

text \<open>A numeric task id enters the address of the status query as the template literal prints it.\<close>

lemma poll_request_numeric_id:
  "req_url (poll_request sample_config no_env apiKey (JNum (NumDecimal False 1 22))) =
     str ''https://api.example/v1/tasks/1e+21''"
  by (simp add: poll_request_def sample_fields number_toString_def Let_def str_def)

section \<open>The claims\<close>

text \<open>
  C1. A call of \<open>resolveImage\<close> on a remote http or https URL whose host the guard
  classifies as private, with private-network access not allowed (absent or false), fails
  with \<open>BlockedBySsrfPolicy\<close> and leaves the world as it was: no request is sent. An
  image-edit job whose reference image has the host 192.168.1.5, with
  \<open>ALLOW_PRIVATE_IMAGE_FETCH\<close> not enabled, fails in the same way before any request,
  the submission included.
\<close>

theorem C1_ssrf_blocked:
  "(trim s \<noteq> [] \<and> \<not> isDataUrl s \<and> parse s = Some u \<and>
    (toLowerCase (protocol u) = str ''http:'' \<or> toLowerCase (protocol u) = str ''https:'') \<and>
    isPrivateIp (hostname u) \<and>
    (allowPrivateNetwork options = None \<or> allowPrivateNetwork options = Some False)
    \<longrightarrow> resolveImage parse t (JStr s) options w = (Inl BlockedBySsrfPolicy, w)) \<and>
   (isImageEditModel (selectModel cfg e reqBody) \<and>
    trim img \<noteq> [] \<and> \<not> isDataUrl img \<and> parse img = Some v \<and>
    (toLowerCase (protocol v) = str ''http:'' \<or> toLowerCase (protocol v) = str ''https:'') \<and>
    hostname v = str ''192.168.1.5'' \<and>
    \<not> getEnvBool e (str ''ALLOW_PRIVATE_IMAGE_FETCH'') False
    \<longrightarrow> handleModelScope cfg e parse t apiKey reqBody prompt (img # others) w =
          (Inl BlockedBySsrfPolicy, w))"
proof (intro conjI impI)
  assume "trim s \<noteq> [] \<and> \<not> isDataUrl s \<and> parse s = Some u \<and>
    (toLowerCase (protocol u) = str ''http:'' \<or> toLowerCase (protocol u) = str ''https:'') \<and>
    isPrivateIp (hostname u) \<and>
    (allowPrivateNetwork options = None \<or> allowPrivateNetwork options = Some False)"
  then have "trim s \<noteq> []" "\<not> isDataUrl s" "parse s = Some u"
    "toLowerCase (protocol u) = str ''http:'' \<or> toLowerCase (protocol u) = str ''https:''"
    "isPrivateIp (hostname u)"
    "allowPrivateNetwork options = None \<or> allowPrivateNetwork options = Some False"
    by blast+
  then show "resolveImage parse t (JStr s) options w = (Inl BlockedBySsrfPolicy, w)"
    by (rule resolveImage_blocked)
next
  assume a: "isImageEditModel (selectModel cfg e reqBody) \<and>
    trim img \<noteq> [] \<and> \<not> isDataUrl img \<and> parse img = Some v \<and>
    (toLowerCase (protocol v) = str ''http:'' \<or> toLowerCase (protocol v) = str ''https:'') \<and>
    hostname v = str ''192.168.1.5'' \<and>
    \<not> getEnvBool e (str ''ALLOW_PRIVATE_IMAGE_FETCH'') False"
  then have p: "isPrivateIp (hostname v)" using private_192 by simp
  from a have "isImageEditModel (selectModel cfg e reqBody)" "img # others = img # others"
    "trim img \<noteq> []" "\<not> isDataUrl img" "parse img = Some v"
    "toLowerCase (protocol v) = str ''http:'' \<or> toLowerCase (protocol v) = str ''https:''"
    by blast+
  moreover note p
  moreover from a have "\<not> getEnvBool e (str ''ALLOW_PRIVATE_IMAGE_FETCH'') False" by blast
  ultimately show "handleModelScope cfg e parse t apiKey reqBody prompt (img # others) w =
          (Inl BlockedBySsrfPolicy, w)"
    by (rule handleModelScope_blocked)
qed

theorem C1_ssrf_blocked_witness:
  "resolveImage sample_parse dead_transport (JStr (str ''http://192.168.1.5/a.png''))
     \<lparr>timeoutMs = None, maxBytes = None, allowPrivateNetwork = None\<rparr> idle_world =
     (Inl BlockedBySsrfPolicy, idle_world) \<and>
   handleModelScope sample_config no_env sample_parse dead_transport (str ''ms-key'')
     \<lparr>model = None, size_opt = None\<rparr> (str ''make it blue'')
     [str ''http://192.168.1.5/a.png''] idle_world =
     (Inl BlockedBySsrfPolicy, idle_world)"
  using C1_ssrf_blocked [of "str ''http://192.168.1.5/a.png''" sample_parse
      "\<lparr>protocol = str ''http:'', hostname = str ''192.168.1.5'',
        href = str ''http://192.168.1.5/a.png''\<rparr>"
      "\<lparr>timeoutMs = None, maxBytes = None, allowPrivateNetwork = None\<rparr>"
      dead_transport idle_world sample_config no_env "\<lparr>model = None, size_opt = None\<rparr>"
      "str ''http://192.168.1.5/a.png''"
      "\<lparr>protocol = str ''http:'', hostname = str ''192.168.1.5'',
        href = str ''http://192.168.1.5/a.png''\<rparr>"
      "str ''ms-key''" "str ''make it blue''" "[]"]
    trim_sample sample_edit_model private_192
  by (simp add: sample_parse_def isDataUrl_def startsWith_def toLowerCase_def getEnvBool_def
      no_env_def trim_def str_def)

text \<open>
  C2. For every byte sequence \<open>B\<close> (the empty one and every length modulo 3 included),
  decoding the encoding of \<open>B\<close> succeeds and returns \<open>B\<close>.
\<close>

theorem C2_roundtrip: "decodeBase64 (encodeBase64 B) = Inr B"
  by (rule decode_encode)

text \<open>
  C3. Let the submission return a response whose JSON carries a truthy \<open>task_id\<close>. The
  orchestrator then polls. Whatever the transport answers, the run adds to the world the
  traces of at least one and at most 60 attempts, each a sleep of 5000 ms followed by the
  status query (then, when that query failed and a task type is configured, the query
  without the task-type header, and the reading of a response that is \<open>ok\<close>); and it
  ends with \<open>PollTimeout\<close> only after all 60.
  If the first two queries report \<open>PENDING\<close> and the third \<open>SUCCEED\<close>, the call
  succeeds with the rendered extraction after exactly three attempts. If sixty queries in
  a row report \<open>PENDING\<close>, it fails with \<open>PollTimeout\<close> after sixty attempts. If the
  first query reports \<open>FAILED\<close>, it fails with \<open>UpstreamTaskFailed\<close>, carrying the
  payload, after that one attempt. If every query is answered with a status outside 200
  to 299, no attempt ends the loop: it fails with \<open>PollTimeout\<close> after sixty attempts.
\<close>

theorem C3_poll_loop:
  assumes "submit cfg e parse t apiKey reqBody prompt images w = (Inr sr, w1)"
    and "ok sr" "resp_json sr = Some sd" "sd \<noteq> JNull"
    and "get_prop sd (str ''task_id'') = Some tid" "truthy (Some tid)"
  shows
   "(\<exists>as. 1 \<le> length as \<and> length as \<le> 60 \<and>
          snd (handleModelScope cfg e parse t apiKey reqBody prompt images w) =
            w1 @ JsonRead #
              concat (map (attempt_events (poll_request cfg e apiKey tid)
                             (plain_request cfg apiKey tid)) as) \<and>
          (fst (handleModelScope cfg e parse t apiKey reqBody prompt images w) = Inl PollTimeout
           \<longrightarrow> length as = 60)) \<and>
    (t (length (calls w1)) (poll_request cfg e apiKey tid) = Responds p1 \<and>
     reports p1 (str ''PENDING'') \<and>
     t (length (calls w1) + 1) (poll_request cfg e apiKey tid) = Responds p2 \<and>
     reports p2 (str ''PENDING'') \<and>
     t (length (calls w1) + 2) (poll_request cfg e apiKey tid) = Responds p3 \<and>
     reports p3 (str ''SUCCEED'') \<and> resp_json p3 = Some d3
     \<longrightarrow> handleModelScope cfg e parse t apiKey reqBody prompt images w =
           (Inr (render_result (extractImages (Some d3))),
            polled cfg e apiKey tid 3 (w1 @ [JsonRead]))) \<and>
    ((\<forall>j<60. \<exists>p. t (length (calls w1) + j) (poll_request cfg e apiKey tid) = Responds p \<and>
                      reports p (str ''PENDING''))
     \<longrightarrow> handleModelScope cfg e parse t apiKey reqBody prompt images w =
           (Inl PollTimeout, polled cfg e apiKey tid 60 (w1 @ [JsonRead]))) \<and>
    (t (length (calls w1)) (poll_request cfg e apiKey tid) = Responds q \<and>
     reports q (str ''FAILED'') \<and> resp_json q = Some dq
     \<longrightarrow> handleModelScope cfg e parse t apiKey reqBody prompt images w =
           (Inl (UpstreamTaskFailed dq), polled cfg e apiKey tid 1 (w1 @ [JsonRead]))) \<and>
    ((\<forall>m r. length (calls w1) \<le> m \<longrightarrow> (\<exists>p. t m r = Responds p \<and> \<not> ok p))
     \<longrightarrow> handleModelScope cfg e parse t apiKey reqBody prompt images w =
           (Inl PollTimeout,
            w1 @ JsonRead #
              concat (replicate 60 (attempt_events (poll_request cfg e apiKey tid)
                                      (plain_request cfg apiKey tid) (task_type e \<noteq> [], False)))))"
proof -
  let ?req = "poll_request cfg e apiKey tid"
  let ?n = "length (calls w1)"
  let ?w = "w1 @ [JsonRead]"
  let ?H = "handleModelScope cfg e parse t apiKey reqBody prompt images w"
  have h: "?H = poll_loop cfg e t apiKey tid 0 ?w"
    using assms by (rule handleModelScope_polls)
  have n: "length (calls ?w) = ?n" by simp
  have m: "(0::nat) < maxAttempts" "(2::nat) < maxAttempts" "(0::nat) + 2 \<le> maxAttempts"
    "(0::nat) + 60 \<le> maxAttempts" "maxAttempts \<le> 0 + 60" "maxAttempts - 0 = 60"
    by (simp_all add: maxAttempts_def)
  have g: "\<exists>as. 1 \<le> length as \<and> length as \<le> 60 \<and>
          snd (poll_loop cfg e t apiKey tid 0 ?w) =
            w1 @ JsonRead # concat (map (attempt_events ?req (plain_request cfg apiKey tid)) as) \<and>
          (fst (poll_loop cfg e t apiKey tid 0 ?w) = Inl PollTimeout \<longrightarrow> length as = 60)"
  proof -
    from poll_loop_shape [of 0 cfg e t apiKey tid ?w] obtain as where
      as: "length as \<le> maxAttempts - 0 \<and> (0 < maxAttempts \<longrightarrow> as \<noteq> []) \<and>
        snd (poll_loop cfg e t apiKey tid 0 ?w) =
           ?w @ concat (map (attempt_events ?req (plain_request cfg apiKey tid)) as) \<and>
        (fst (poll_loop cfg e t apiKey tid 0 ?w) = Inl PollTimeout \<longrightarrow>
           length as = maxAttempts - 0)" ..
    then have "as \<noteq> []" using m(1) by simp
    then have 1: "1 \<le> length as" by (cases as) simp_all
    from as have 2: "length as \<le> 60" by (simp add: maxAttempts_def)
    from as have 3: "snd (poll_loop cfg e t apiKey tid 0 ?w) =
        w1 @ JsonRead # concat (map (attempt_events ?req (plain_request cfg apiKey tid)) as)"
      by simp
    from as have 4: "fst (poll_loop cfg e t apiKey tid 0 ?w) = Inl PollTimeout \<longrightarrow> length as = 60"
      by (simp add: maxAttempts_def)
    from 1 2 3 4 show ?thesis by (intro exI [of _ as] conjI)
  qed
  have s1: "poll_loop cfg e t apiKey tid 0 ?w =
            (Inr (render_result (extractImages (Some d3))), polled cfg e apiKey tid 3 ?w)"
    if a: "t ?n ?req = Responds p1" "reports p1 (str ''PENDING'')"
      "t (?n + 1) ?req = Responds p2" "reports p2 (str ''PENDING'')"
      "t (?n + 2) ?req = Responds p3" "reports p3 (str ''SUCCEED'')" "resp_json p3 = Some d3"
  proof -
    have "\<forall>j<2. \<exists>p. t (length (calls ?w) + j) ?req = Responds p \<and> reports p (str ''PENDING'')"
    proof (intro allI impI)
      fix j :: nat assume "j < 2"
      then consider "j = 0" | "j = 1" by linarith
      then show "\<exists>p. t (length (calls ?w) + j) ?req = Responds p \<and> reports p (str ''PENDING'')"
        using a(1-4) by cases auto
    qed
    then have "poll_loop cfg e t apiKey tid 0 ?w =
               poll_loop cfg e t apiKey tid (0 + 2) (polled cfg e apiKey tid 2 ?w)"
      using status_distinct(1,2) m(3) by (rule poll_pending_run)
    then have "poll_loop cfg e t apiKey tid 0 ?w =
               poll_loop cfg e t apiKey tid 2 (polled cfg e apiKey tid 2 ?w)"
      by (simp only: add_0)
    also have "poll_loop cfg e t apiKey tid 2 (polled cfg e apiKey tid 2 ?w) =
               (Inr (render_result (extractImages (Some d3))),
                polled cfg e apiKey tid 1 (polled cfg e apiKey tid 2 ?w))"
    proof -
      have "t (length (calls (polled cfg e apiKey tid 2 ?w))) ?req = Responds p3"
        using a(5) by (simp only: polled_calls n)
      from poll_step [where i = 2 and t = t and p = p3 and st = "str ''SUCCEED''", OF m(2) this a(6)]
      show ?thesis by (simp add: a(7))
    qed
    also have "polled cfg e apiKey tid 1 (polled cfg e apiKey tid 2 ?w) = polled cfg e apiKey tid 3 ?w"
      by (simp add: polled_add)
    finally show ?thesis .
  qed
  have s2: "poll_loop cfg e t apiKey tid 0 ?w = (Inl PollTimeout, polled cfg e apiKey tid 60 ?w)"
    if a: "\<forall>j<60. \<exists>p. t (?n + j) ?req = Responds p \<and> reports p (str ''PENDING'')"
  proof -
    from a have "\<forall>j<60. \<exists>p. t (length (calls ?w) + j) ?req = Responds p \<and>
                          reports p (str ''PENDING'')"
      by (simp only: n)
    then have "poll_loop cfg e t apiKey tid 0 ?w =
          poll_loop cfg e t apiKey tid (0 + 60) (polled cfg e apiKey tid 60 ?w)"
      using status_distinct(1,2) m(4) by (rule poll_pending_run)
    also have "poll_loop cfg e t apiKey tid (0 + 60) (polled cfg e apiKey tid 60 ?w) =
               (Inl PollTimeout, polled cfg e apiKey tid 60 ?w)"
      using m(5) by (rule poll_loop_exhausted)
    finally show ?thesis .
  qed
  have s3: "poll_loop cfg e t apiKey tid 0 ?w =
            (Inl (UpstreamTaskFailed dq), polled cfg e apiKey tid 1 ?w)"
    if a: "t ?n ?req = Responds q" "reports q (str ''FAILED'')" "resp_json q = Some dq"
  proof -
    have "t (length (calls ?w)) ?req = Responds q" using a(1) by (simp only: n)
    from poll_step [where i = 0 and t = t and w = ?w and p = q and st = "str ''FAILED''", OF m(1) this a(2)]
      a(3) status_distinct(3) show ?thesis by simp
  qed
  have s4: "poll_loop cfg e t apiKey tid 0 ?w =
            (Inl PollTimeout,
             w1 @ JsonRead #
               concat (replicate 60 (attempt_events ?req (plain_request cfg apiKey tid)
                                       (task_type e \<noteq> [], False))))"
    if a: "\<forall>m r. ?n \<le> m \<longrightarrow> (\<exists>p. t m r = Responds p \<and> \<not> ok p)"
  proof -
    let ?a = "attempt_events ?req (plain_request cfg apiKey tid) (task_type e \<noteq> [], False)"
    from a have "\<forall>m r. length (calls ?w) \<le> m \<longrightarrow> (\<exists>p. t m r = Responds p \<and> \<not> ok p)"
      by (simp only: n)
    then have "poll_loop cfg e t apiKey tid 0 ?w =
          poll_loop cfg e t apiKey tid (0 + 60) (?w @ concat (replicate 60 ?a))"
      using m(4) by (rule poll_unavailable_run)
    also have "poll_loop cfg e t apiKey tid (0 + 60) (?w @ concat (replicate 60 ?a)) =
               (Inl PollTimeout, ?w @ concat (replicate 60 ?a))"
      using m(5) by (rule poll_loop_exhausted)
    finally show ?thesis by simp
  qed
  show ?thesis
    unfolding h
  proof (intro conjI impI)
    show "\<exists>as. 1 \<le> length as \<and> length as \<le> 60 \<and>
          snd (poll_loop cfg e t apiKey tid 0 ?w) =
            w1 @ JsonRead # concat (map (attempt_events ?req (plain_request cfg apiKey tid)) as) \<and>
          (fst (poll_loop cfg e t apiKey tid 0 ?w) = Inl PollTimeout \<longrightarrow> length as = 60)"
      by (rule g)
  next
    assume "t ?n ?req = Responds p1 \<and> reports p1 (str ''PENDING'') \<and>
      t (?n + 1) ?req = Responds p2 \<and> reports p2 (str ''PENDING'') \<and>
      t (?n + 2) ?req = Responds p3 \<and> reports p3 (str ''SUCCEED'') \<and> resp_json p3 = Some d3"
    then show "poll_loop cfg e t apiKey tid 0 ?w =
            (Inr (render_result (extractImages (Some d3))), polled cfg e apiKey tid 3 ?w)"
      by (intro s1) simp_all
  next
    assume "\<forall>j<60. \<exists>p. t (?n + j) ?req = Responds p \<and> reports p (str ''PENDING'')"
    then show "poll_loop cfg e t apiKey tid 0 ?w = (Inl PollTimeout, polled cfg e apiKey tid 60 ?w)"
      by (rule s2)
  next
    assume "t ?n ?req = Responds q \<and> reports q (str ''FAILED'') \<and> resp_json q = Some dq"
    then show "poll_loop cfg e t apiKey tid 0 ?w =
            (Inl (UpstreamTaskFailed dq), polled cfg e apiKey tid 1 ?w)"
      by (intro s3) simp_all
  next
    assume "\<forall>m r. ?n \<le> m \<longrightarrow> (\<exists>p. t m r = Responds p \<and> \<not> ok p)"
    then show "poll_loop cfg e t apiKey tid 0 ?w =
            (Inl PollTimeout,
             w1 @ JsonRead #
               concat (replicate 60 (attempt_events ?req (plain_request cfg apiKey tid)
                                       (task_type e \<noteq> [], False))))"
      by (rule s4)
  qed
qed

theorem C3_poll_loop_witness:
  "handleModelScope sample_config no_env sample_parse script_success (str ''ms-key'')
     generation_body (str ''a cat'') [] idle_world =
     (Inr (str ''![Generated Image](http://a/1.png)''),
      Call generation_request # JsonRead #
      concat (replicate 3
        [Sleep 5000, Call (poll_request sample_config no_env (str ''ms-key'') (JStr (str ''x''))),
         JsonRead])) \<and>
   handleModelScope sample_config no_env sample_parse script_pending (str ''ms-key'')
     generation_body (str ''a cat'') [] idle_world =
     (Inl PollTimeout,
      Call generation_request # JsonRead #
      concat (replicate 60
        [Sleep 5000, Call (poll_request sample_config no_env (str ''ms-key'') (JStr (str ''x''))),
         JsonRead])) \<and>
   handleModelScope sample_config no_env sample_parse script_failed (str ''ms-key'')
     generation_body (str ''a cat'') [] idle_world =
     (Inl (UpstreamTaskFailed failed_payload),
      [Call generation_request, JsonRead,
       Sleep 5000, Call (poll_request sample_config no_env (str ''ms-key'') (JStr (str ''x''))),
       JsonRead]) \<and>
   handleModelScope sample_config no_env sample_parse script_unavailable (str ''ms-key'')
     generation_body (str ''a cat'') [] idle_world =
     (Inl PollTimeout,
      Call generation_request # JsonRead #
      concat (replicate 60
        [Sleep 5000, Call (poll_request sample_config no_env (str ''ms-key'') (JStr (str ''x''))),
         Call (plain_request sample_config (str ''ms-key'') (JStr (str ''x'')))])) \<and>
   req_url (poll_request sample_config no_env (str ''ms-key'') (JStr (str ''x''))) =
     str ''https://api.example/v1/tasks/x'' \<and>
   req_headers (poll_request sample_config no_env (str ''ms-key'') (JStr (str ''x''))) =
     [(str ''Authorization'', str ''Bearer ms-key''),
      (str ''X-ModelScope-Task-Type'', str ''image_generation'')]"
proof -
  let ?key = "str ''ms-key''"
  let ?tid = "JStr (str ''x'')"
  let ?req = "poll_request sample_config no_env ?key ?tid"
  let ?w1 = "[Call generation_request]"
  let ?H = "\<lambda>t. handleModelScope sample_config no_env sample_parse t ?key generation_body
                (str ''a cat'') [] idle_world"
  have n: "length (calls ?w1) = 1" by simp
  \<comment> \<open>three polls, then success\<close>
  have u1: "submit sample_config no_env sample_parse script_success ?key generation_body
      (str ''a cat'') [] idle_world = (Inr (json_response handle_payload), ?w1)"
    by (rule submit_sample) (simp add: script_success_def)
  have h1: "script_success (length (calls ?w1)) ?req =
              Responds (json_response pending_payload) \<and>
            reports (json_response pending_payload) (str ''PENDING'') \<and>
            script_success (length (calls ?w1) + 1) ?req =
              Responds (json_response pending_payload) \<and>
            reports (json_response pending_payload) (str ''PENDING'') \<and>
            script_success (length (calls ?w1) + 2) ?req =
              Responds (json_response succeed_payload) \<and>
            reports (json_response succeed_payload) (str ''SUCCEED'') \<and>
            resp_json (json_response succeed_payload) = Some succeed_payload"
    unfolding n by (simp add: script_success_def sample_reports resp_json_json_response)
  have r1: "?H script_success =
      (Inr (render_result (extractImages (Some succeed_payload))),
       polled sample_config no_env ?key ?tid 3 (?w1 @ [JsonRead]))"
    using C3_poll_loop [OF u1 sample_handle] h1 by blast
  \<comment> \<open>sixty polls, all pending\<close>
  have u2: "submit sample_config no_env sample_parse script_pending ?key generation_body
      (str ''a cat'') [] idle_world = (Inr (json_response handle_payload), ?w1)"
    by (rule submit_sample) (simp add: script_pending_def)
  have h2: "\<forall>j<60. \<exists>p. script_pending (length (calls ?w1) + j) ?req =
                        Responds p \<and> reports p (str ''PENDING'')"
    unfolding n by (simp add: script_pending_def sample_reports)
  have r2: "?H script_pending =
      (Inl PollTimeout, polled sample_config no_env ?key ?tid 60 (?w1 @ [JsonRead]))"
    using C3_poll_loop [OF u2 sample_handle] h2 by blast
  \<comment> \<open>failure at the first poll\<close>
  have u3: "submit sample_config no_env sample_parse script_failed ?key generation_body
      (str ''a cat'') [] idle_world = (Inr (json_response handle_payload), ?w1)"
    by (rule submit_sample) (simp add: script_failed_def)
  have h3: "script_failed (length (calls ?w1)) ?req =
              Responds (json_response failed_payload) \<and>
            reports (json_response failed_payload) (str ''FAILED'') \<and>
            resp_json (json_response failed_payload) = Some failed_payload"
    unfolding n by (simp add: script_failed_def sample_reports resp_json_json_response)
  have r3: "?H script_failed =
      (Inl (UpstreamTaskFailed failed_payload),
       polled sample_config no_env ?key ?tid 1 (?w1 @ [JsonRead]))"
    using C3_poll_loop [OF u3 sample_handle] h3 by blast
  \<comment> \<open>every status query answered 503\<close>
  have u4: "submit sample_config no_env sample_parse script_unavailable ?key generation_body
      (str ''a cat'') [] idle_world = (Inr (json_response handle_payload), ?w1)"
    by (rule submit_sample) (simp add: script_unavailable_def)
  have h4: "\<forall>m r. length (calls ?w1) \<le> m \<longrightarrow>
                  (\<exists>p. script_unavailable m r = Responds p \<and> \<not> ok p)"
    unfolding n by (simp add: script_unavailable_def unavailable_not_ok)
  have r4: "?H script_unavailable =
      (Inl PollTimeout,
       ?w1 @ JsonRead #
         concat (replicate 60 (attempt_events ?req (plain_request sample_config ?key ?tid)
                                 (task_type no_env \<noteq> [], False))))"
    using C3_poll_loop [OF u4 sample_handle] h4 by blast
  have q: "req_url ?req = str ''https://api.example/v1/tasks/x''"
    "req_headers ?req = [(str ''Authorization'', str ''Bearer ms-key''),
                         (str ''X-ModelScope-Task-Type'', str ''image_generation'')]"
    by (simp_all add: poll_request_def sample_fields task_type_def no_env_def trim_def str_def
        is_space_def)
  show ?thesis
    unfolding r1 r2 r3 r4 q
    by (simp add: sample_render polled_def attempt_events_def sample_task_type)
qed

text \<open>
  C4 (as the code has it). Take a remote fetch with byte ceiling \<open>byte_ceiling options\<close>
  that passed the guard and got a response with a status from 200 to 299 and a media type
  \<open>image/...\<close>. If \<open>parseInt\<close> reads from the content-length header a finite number
  above the ceiling, the call fails with \<open>TooLarge\<close> and the world holds the request
  and nothing else: no part of the body was read. This is so in particular when the
  header is a run of digits that denotes a number above the ceiling and below \<open>2^53\<close>.
  Otherwise the body is read chunk by chunk, and the chunk that takes the running total
  above the ceiling ends the call with \<open>TooLarge\<close>: exactly the chunks up to that one
  were read, then the reader was cancelled, and what the stream still holds (\<open>rest\<close>)
  was not read. This second case covers a header that is absent or that states a length
  within the ceiling.
\<close>

theorem C4_byte_ceiling:
  assumes "trim s \<noteq> []" "\<not> isDataUrl s" "parse s = Some u"
    and "assertAllowedRemoteUrl u
           (case allowPrivateNetwork options of Some b \<Rightarrow> b | None \<Rightarrow> False) = Inr ()"
    and "t (length (calls w)) (image_request u) = Responds resp"
    and "image_response resp"
  shows
   "(content_length resp = Some h \<and> js_parseInt10 h = Some d \<and> js_isFinite (Some d) \<and>
     d > byte_ceiling options
     \<longrightarrow> resolveImage parse t (JStr s) options w = (Inl TooLarge, w @ [Call (image_request u)])) \<and>
    (content_length resp = Some h \<and> h \<noteq> [] \<and> list_all is_digit h \<and> decimal h < 2 ^ 53 \<and>
     int (decimal h) > byte_ceiling options
     \<longrightarrow> resolveImage parse t (JStr s) options w = (Inl TooLarge, w @ [Call (image_request u)])) \<and>
    (\<not> declares_too_large resp (byte_ceiling options) \<and>
     body resp = Some (map Chunk pre @ Chunk (Some v) # rest) \<and>
     int (sum_list (map chunk_size pre)) \<le> byte_ceiling options \<and>
     int (sum_list (map chunk_size pre) + length v) > byte_ceiling options
     \<longrightarrow> resolveImage parse t (JStr s) options w =
           (Inl TooLarge,
            w @ [Call (image_request u)] @ replicate (length pre + 1) Read @ [Cancel])) \<and>
    (content_length resp = None \<or>
     (\<exists>k. content_length resp = Some k \<and>
          (\<forall>j. js_parseInt10 k = Some j \<longrightarrow> j \<le> byte_ceiling options))
     \<longrightarrow> \<not> declares_too_large resp (byte_ceiling options))"
proof -
  let ?w1 = "w @ [Call (image_request u)]"
  let ?c = "byte_ceiling options"
  have fast: "resolveImage parse t (JStr s) options w = (Inl TooLarge, ?w1)"
    if "declares_too_large resp ?c"
  proof -
    from that have "readResponseBytesWithLimit resp ?c ?w1 = (Inl TooLarge, ?w1)"
      by (simp add: readResponseBytesWithLimit_def)
    with assms show ?thesis by (rule resolveImage_reads)
  qed
  show ?thesis
  proof (intro conjI impI)
    assume "content_length resp = Some h \<and> js_parseInt10 h = Some d \<and> js_isFinite (Some d) \<and>
      d > ?c"
    then have "declares_too_large resp ?c"
      using declares_too_large_parsed [of resp h d ?c] by blast
    then show "resolveImage parse t (JStr s) options w = (Inl TooLarge, ?w1)" by (rule fast)
  next
    assume "content_length resp = Some h \<and> h \<noteq> [] \<and> list_all is_digit h \<and> decimal h < 2 ^ 53 \<and>
      int (decimal h) > ?c"
    then have "declares_too_large resp ?c"
      using declares_too_large_digits [of resp h ?c] by blast
    then show "resolveImage parse t (JStr s) options w = (Inl TooLarge, ?w1)" by (rule fast)
  next
    assume a: "\<not> declares_too_large resp ?c \<and>
      body resp = Some (map Chunk pre @ Chunk (Some v) # rest) \<and>
      int (sum_list (map chunk_size pre)) \<le> ?c \<and>
      int (sum_list (map chunk_size pre) + length v) > ?c"
    then have "read_loop (map Chunk pre @ Chunk (Some v) # rest) ?c 0 [] ?w1 =
       (Inl TooLarge, ?w1 @ replicate (length pre + 1) Read @ [Cancel])"
      by (intro read_loop_exceeds) simp_all
    with a have "readResponseBytesWithLimit resp ?c ?w1 =
       (Inl TooLarge, ?w1 @ replicate (length pre + 1) Read @ [Cancel])"
      by (simp add: readResponseBytesWithLimit_def)
    with assms have "resolveImage parse t (JStr s) options w =
       (Inl TooLarge, ?w1 @ replicate (length pre + 1) Read @ [Cancel])"
      by (rule resolveImage_reads)
    then show "resolveImage parse t (JStr s) options w =
           (Inl TooLarge,
            w @ [Call (image_request u)] @ replicate (length pre + 1) Read @ [Cancel])"
      by simp
  next
    assume "content_length resp = None \<or>
      (\<exists>k. content_length resp = Some k \<and> (\<forall>j. js_parseInt10 k = Some j \<longrightarrow> j \<le> ?c))"
    then show "\<not> declares_too_large resp ?c"
      by (auto simp add: declares_too_large_def Let_def split: option.splits)
  qed
qed

theorem C4_byte_ceiling_witness:
  "resolveImage sample_parse
     (answering (sample_response (Some (str ''52428800'')) (Some [Chunk (Some [1, 2, 3])])))
     (JStr (str ''http://example.com/a.png''))
     \<lparr>timeoutMs = None, maxBytes = None, allowPrivateNetwork = None\<rparr> idle_world =
     (Inl TooLarge,
      [Call (image_request \<lparr>protocol = str ''http:'', hostname = str ''example.com'',
                             href = str ''http://example.com/a.png''\<rparr>)]) \<and>
   resolveImage sample_parse
     (answering (sample_response None
        (Some [Chunk (Some [1, 2, 3]), Chunk (Some [4, 5]), Chunk (Some [6])])))
     (JStr (str ''http://example.com/a.png''))
     \<lparr>timeoutMs = None, maxBytes = Some 4, allowPrivateNetwork = None\<rparr> idle_world =
     (Inl TooLarge,
      [Call (image_request \<lparr>protocol = str ''http:'', hostname = str ''example.com'',
                             href = str ''http://example.com/a.png''\<rparr>),
       Read, Read, Cancel])"
proof -
  let ?s = "str ''http://example.com/a.png''"
  let ?u = "\<lparr>protocol = str ''http:'', hostname = str ''example.com'', href = ?s\<rparr>"
  let ?r1 = "sample_response (Some (str ''52428800'')) (Some [Chunk (Some [1, 2, 3])])"
  let ?r2 = "sample_response None (Some [Chunk (Some [1, 2, 3]), Chunk (Some [4, 5]), Chunk (Some [6])])"
  let ?o1 = "\<lparr>timeoutMs = None, maxBytes = None, allowPrivateNetwork = None\<rparr>"
  let ?o2 = "\<lparr>timeoutMs = None, maxBytes = Some 4, allowPrivateNetwork = None\<rparr>"
  have p: "sample_parse ?s = Some ?u"
    by (simp add: sample_parse_def str_def)
  have d: "\<not> isDataUrl ?s"
    by (simp add: isDataUrl_def startsWith_def str_def)
  have g: "assertAllowedRemoteUrl ?u False = Inr ()"
    using example_public by (simp add: assertAllowedRemoteUrl_def toLowerCase_def str_def)
  have im: "image_response (sample_response len evs)" for len evs
    by (simp add: image_response_def sample_response_def ok_def normalizeMime_def trim_def
        toLowerCase_def startsWith_def slice_def str_def is_space_def)
  have c1: "byte_ceiling ?o1 = 10485760" and c2: "byte_ceiling ?o2 = 4"
    by (simp_all add: byte_ceiling_def)
  have 1: "resolveImage sample_parse (answering ?r1) (JStr ?s) ?o1 idle_world =
           (Inl TooLarge, idle_world @ [Call (image_request ?u)])"
    using C4_byte_ceiling [where s = ?s and parse = sample_parse and u = ?u and options = ?o1
        and t = "answering ?r1" and w = idle_world and resp = ?r1
        and h = "str ''52428800''" and d = 52428800, OF trim_sample_public d p]
      g im parse_50MB finite_50MB
    by (simp add: answering_def c1) (simp add: sample_response_def)
  have n: "\<not> declares_too_large ?r2 4"
    by (simp add: declares_too_large_def sample_response_def)
  have 2: "resolveImage sample_parse (answering ?r2) (JStr ?s) ?o2 idle_world =
           (Inl TooLarge,
            idle_world @ [Call (image_request ?u)] @ replicate (length [Some [1, 2, 3 :: byte]] + 1) Read @
            [Cancel])"
    using C4_byte_ceiling [where s = ?s and parse = sample_parse and u = ?u and options = ?o2
        and t = "answering ?r2" and w = idle_world and resp = ?r2
        and pre = "[Some [1, 2, 3]]" and v = "[4, 5]" and rest = "[Chunk (Some [6])]",
        OF trim_sample_public d p]
      g im n
    by (simp add: answering_def c2 chunk_size_simps) (simp add: sample_response_def)
  from 1 2 show ?thesis by (simp add: idle_world_def)
qed

text \<open>
  The claim as stated fails. A response with status 404 that declares 50 MB against a
  ceiling of 10 MB does not end in \<open>TooLarge\<close>: the status is tested first, the body
  is read as text and the call fails with \<open>UpstreamError\<close>. A response with status
  200 and the media type \<open>text/html\<close> that declares as much fails with
  \<open>InvalidMediaType\<close>. And the header \<open>9007199254740993\<close> exceeds the ceiling
  \<open>9007199254740992\<close>, but \<open>parseInt\<close> rounds it to the ceiling itself, so the
  body is read and the image returned.
\<close>

theorem C4_counterexample:
  "declares_too_large (oversized_response 404 (str ''image/png'')) 10485760 \<and>
   resolveImage sample_parse (answering (oversized_response 404 (str ''image/png'')))
     (JStr (str ''http://example.com/a.png''))
     \<lparr>timeoutMs = None, maxBytes = Some 10485760, allowPrivateNetwork = None\<rparr> idle_world =
     (Inl (UpstreamError 404 (str ''gone'')),
      [Call (image_request \<lparr>protocol = str ''http:'', hostname = str ''example.com'',
                             href = str ''http://example.com/a.png''\<rparr>),
       TextRead]) \<and>
   declares_too_large (oversized_response 200 (str ''text/html'')) 10485760 \<and>
   resolveImage sample_parse (answering (oversized_response 200 (str ''text/html'')))
     (JStr (str ''http://example.com/a.png''))
     \<lparr>timeoutMs = None, maxBytes = Some 10485760, allowPrivateNetwork = None\<rparr> idle_world =
     (Inl InvalidMediaType,
      [Call (image_request \<lparr>protocol = str ''http:'', hostname = str ''example.com'',
                             href = str ''http://example.com/a.png''\<rparr>)]) \<and>
   decimal (str ''9007199254740993'') = 9007199254740993 \<and>
   resolveImage sample_parse
     (answering (sample_response (Some (str ''9007199254740993'')) (Some [Chunk (Some [1, 2, 3])])))
     (JStr (str ''http://example.com/a.png''))
     \<lparr>timeoutMs = None, maxBytes = Some 9007199254740992, allowPrivateNetwork = None\<rparr>
     idle_world =
     (Inr \<lparr>url = str ''http://example.com/a.png'', mime = str ''image/png'', bytes = [1, 2, 3],
           base64 = str ''AQID'', dataUrl = str ''data:image/png;base64,AQID'', size' = 3\<rparr>,
      [Call (image_request \<lparr>protocol = str ''http:'', hostname = str ''example.com'',
                             href = str ''http://example.com/a.png''\<rparr>),
       Read, Read])"
proof -
  let ?s = "str ''http://example.com/a.png''"
  let ?u = "\<lparr>protocol = str ''http:'', hostname = str ''example.com'', href = ?s\<rparr>"
  let ?r = "sample_response (Some (str ''9007199254740993'')) (Some [Chunk (Some [1, 2, 3])])"
  let ?o = "\<lparr>timeoutMs = None, maxBytes = Some 10485760, allowPrivateNetwork = None\<rparr>"
  have p: "sample_parse ?s = Some ?u"
    by (simp add: sample_parse_def str_def)
  have d: "\<not> isDataUrl ?s"
    by (simp add: isDataUrl_def startsWith_def str_def)
  have g: "assertAllowedRemoteUrl ?u False = Inr ()"
    using example_public by (simp add: assertAllowedRemoteUrl_def toLowerCase_def str_def)
  have 1: "declares_too_large (oversized_response st ct) 10485760" for st ct
    using parse_50MB finite_50MB
    by (simp add: declares_too_large_def oversized_response_def) (simp add: str_def)
  have 2: "resolveImage sample_parse (answering (oversized_response 404 (str ''image/png''))) (JStr ?s)
     ?o idle_world =
     (Inl (UpstreamError 404 (str ''gone'')), [Call (image_request ?u), TextRead])"
    using trim_sample_public d p g
    by (simp add: resolveImage_def Let_def fetchWithTimeout_def answering_def idle_world_def
        image_request_def) (simp add: oversized_response_def ok_def)
  have h: "normalizeMime (content_type (oversized_response 200 (str ''text/html''))) =
           Some (str ''text/html'')"
    by (simp add: oversized_response_def normalizeMime_def trim_def toLowerCase_def slice_def
        str_def is_space_def)
  have hs: "\<not> startsWith (str ''text/html'') (str ''image/'')"
    by (simp add: startsWith_def str_def)
  have hk: "ok (oversized_response 200 (str ''text/html''))"
    by (simp add: ok_def oversized_response_def)
  have 3: "resolveImage sample_parse (answering (oversized_response 200 (str ''text/html''))) (JStr ?s)
     ?o idle_world = (Inl InvalidMediaType, [Call (image_request ?u)])"
    using trim_sample_public d p g h hs hk
    by (simp add: resolveImage_def Let_def fetchWithTimeout_def answering_def idle_world_def
        image_request_def)
  have 4: "decimal (str ''9007199254740993'') = 9007199254740993"
    by (simp add: str_def)
  have n: "\<not> declares_too_large ?r 9007199254740992"
    using parse_tie by (simp add: declares_too_large_def sample_response_def)
  have m: "normalizeMime (content_type ?r) = Some (str ''image/png'')"
    by (simp add: sample_response_def normalizeMime_def trim_def toLowerCase_def slice_def str_def
        is_space_def)
  have s: "startsWith (str ''image/png'') (str ''image/'')" "str ''image/png'' \<noteq> []"
    by (simp_all add: startsWith_def str_def)
  have b: "readResponseBytesWithLimit ?r 9007199254740992 [Call (image_request ?u)] =
           (Inr [1, 2, 3], [Call (image_request ?u), Read, Read])"
    using n by (simp add: readResponseBytesWithLimit_def) (simp add: sample_response_def)
  have k: "ok ?r" by (simp add: ok_def sample_response_def)
  have 5: "resolveImage sample_parse (answering ?r) (JStr ?s)
     \<lparr>timeoutMs = None, maxBytes = Some 9007199254740992, allowPrivateNetwork = None\<rparr> idle_world =
     (Inr \<lparr>url = ?s, mime = str ''image/png'', bytes = [1, 2, 3], base64 = encodeBase64 [1, 2, 3],
           dataUrl = str ''data:'' @ str ''image/png'' @ str '';base64,'' @ encodeBase64 [1, 2, 3],
           size' = length [1, 2, 3 :: byte]\<rparr>,
      [Call (image_request ?u), Read, Read])"
    using trim_sample_public d p g k m s b
    by (simp add: resolveImage_def Let_def fetchWithTimeout_def answering_def idle_world_def
        image_request_def)
  have e: "encodeBase64 [1, 2, 3] = str ''AQID''"
    by (simp add: encode_eval)
  from 1 2 3 4 5 show ?thesis by (simp add: e) (simp add: str_def)
qed

text \<open>
  C5. The code breaks the claim at two places. In \<open>QQ==QUFB\<close> the padding marker
  stands in the first of two groups, and the input is decoded: \<open>decode_loop\<close> tests the
  position of \<open>=\<close> inside its group and never which group it is in. The result has two
  bytes too many, because \<open>outLen\<close> counts padding only at the end of the input. And a
  code unit of 256 or more is no alphabet symbol, yet it reads outside the lookup table of
  256 entries, passes the test \<open>< 0\<close> as \<open>undefined\<close> and is decoded like the
  symbol \<open>A\<close>, as the value 0.
\<close>

theorem C5_misplaced_padding_decoded:
  "take 4 (str ''QQ==QUFB'') = str ''QQ=='' \<and>
   decodeBase64 (str ''QQ==QUFB'') = Inr [65, 65, 65, 65, 0, 0] \<and>
   20013 \<notin> set BASE64_ALPHABET \<and> \<not> is_space 20013 \<and>
   BASE64_LOOKUP (Some 20013) = None \<and>
   decodeBase64 [20013, 65, 65, 65] = Inr [0, 0, 0]"
proof -
  have l: "BASE64_LOOKUP (Some 20013) = None"
    by (simp add: BASE64_LOOKUP_def)
  have a: "20013 \<notin> set BASE64_ALPHABET" "\<not> is_space 20013"
    by (simp_all add: BASE64_ALPHABET_def str_def is_space_def)
  have p: "take 4 (str ''QQ==QUFB'') = str ''QQ=='' \<and>
           decodeBase64 (str ''QQ==QUFB'') = Inr [65, 65, 65, 65, 0, 0]"
    by (simp add: decode_eval)
  have u: "decodeBase64 [20013, 65, 65, 65] = Inr [0, 0, 0]"
    by (simp add: decode_eval l)
  from l a p u show ?thesis by simp
qed

text \<open>
  C6 (as the code has it). An input whose length after white-space removal is 1 modulo 4
  is rejected, with \<open>InvalidCharacter\<close>: it is padded with three \<open>=\<close> to a multiple
  of 4, so the length check never fires, and the first padding sign stands in the second
  position of the last group.
\<close>

theorem C6_length_one_mod_four:
  assumes "length (filter (\<lambda>c. \<not> is_space c) input) mod 4 = 1"
  shows "decodeBase64 input = Inl InvalidCharacter"
proof -
  let ?c = "cleaned_of input"
  from assms have m: "length ?c mod 4 = 1" by (simp add: cleaned_of_def)
  then have p: "padded_of input = ?c @ [61, 61, 61]"
    by (simp add: padded_of_def numeral_3_eq_3)
  have i: "length ?c < length (padded_of input)" unfolding p by simp
  have "bad_at (padded_of input) (length ?c)"
    unfolding p using m LOOKUP_pad by (simp add: bad_at_def)
  with i show ?thesis by (rule decodeBase64_bad)
qed

theorem C6_length_one_mod_four_witness:
  "length (filter (\<lambda>c. \<not> is_space c) (str ''QUJDR'')) mod 4 = 1 \<and>
   decodeBase64 (str ''QUJDR'') = Inl InvalidCharacter"
proof -
  have h: "length (filter (\<lambda>c. \<not> is_space c) (str ''QUJDR'')) mod 4 = 1"
    by (simp add: str_def is_space_def)
  then show ?thesis
    using C6_length_one_mod_four [of "str ''QUJDR''"] by blast
qed

text \<open>The claim as stated fails: the one-character input is not rejected for its length.\<close>

theorem C6_counterexample:
  "str ''A'' \<noteq> [] \<and> length (filter (\<lambda>c. \<not> is_space c) (str ''A'')) mod 4 = 1 \<and>
   decodeBase64 (str ''A'') = Inl InvalidCharacter \<and>
   decodeBase64 (str ''A'') \<noteq> Inl InvalidLength"
  by (simp add: decode_eval)

text \<open>
  C7. Every \<open>ResolvedImage\<close> that \<open>resolveImage\<close> returns, from an inline data URL or
  from a remote fetch, has \<open>size\<close> equal to the number of bytes, a media type that starts
  with \<open>image/\<close>, \<open>base64\<close> the encoding of the bytes and \<open>dataUrl\<close> the string
  \<open>data:\<close>, media type, \<open>;base64,\<close>, \<open>base64\<close>; decoding \<open>base64\<close> gives the bytes
  back.
\<close>

theorem C7_resolved_image_invariant:
  assumes "resolveImage parse t u options w = (Inr r, w')"
  shows "size' r = length (bytes r) \<and>
         startsWith (mime r) (str ''image/'') \<and>
         base64 r = encodeBase64 (bytes r) \<and>
         dataUrl r = str ''data:'' @ mime r @ str '';base64,'' @ base64 r \<and>
         decodeBase64 (base64 r) = Inr (bytes r)"
proof -
  have "size' r = length (bytes r) \<and>
         startsWith (mime r) (str ''image/'') \<and>
         base64 r = encodeBase64 (bytes r) \<and>
         dataUrl r = str ''data:'' @ mime r @ str '';base64,'' @ base64 r"
    using assms parseDataUrlToBytes_mime
    by (auto simp add: resolveImage_def Let_def
        split: json.splits option.splits if_splits sum.splits prod.splits fetch_outcome.splits)
  then show ?thesis by (simp add: decode_encode)
qed

theorem C7_resolved_image_invariant_witness:
  "resolveImage sample_parse dead_transport (JStr (str ''data:image/png;base64,QUJD''))
     \<lparr>timeoutMs = None, maxBytes = None, allowPrivateNetwork = None\<rparr> idle_world =
   (Inr \<lparr>url = str ''data:image/png;base64,QUJD'', mime = str ''image/png'', bytes = [65, 66, 67],
          base64 = str ''QUJD'', dataUrl = str ''data:image/png;base64,QUJD'', size' = 3\<rparr>,
    idle_world) \<and>
   startsWith (str ''image/png'') (str ''image/'') \<and>
   str ''QUJD'' = encodeBase64 [65, 66, 67] \<and>
   decodeBase64 (str ''QUJD'') = Inr [65, 66, 67]"
proof -
  have c: "startsWith (str ''image/png'') (str ''image/'') \<and>
           str ''QUJD'' = encodeBase64 [65, 66, 67] \<and>
           decodeBase64 (str ''QUJD'') = Inr [65, 66, 67]"
    using C7_resolved_image_invariant [OF resolve_sample_data_url, unfolded ResolvedImage.select_convs]
    by blast
  with resolve_sample_data_url show ?thesis by blast
qed

text \<open>
  C8. The guard classifies the IPv4-mapped IPv6 loopback literal \<open>::ffff:127.0.0.1\<close> as
  public: it is no dotted quad, so \<open>parseIpv4\<close> gives nothing, and of the textual IPv6
  tests none applies. The same holds for the literal in brackets and for
  \<open>[::ffff:7f00:1]\<close>, the host name that the platform's \<open>URL\<close> object reports for an
  address with that host. So for a remote http or https URL whose host name is one of
  these, and private-network access not allowed, \<open>resolveImage\<close> is not stopped by the
  SSRF check: the GET request is the next thing that happens.
\<close>

theorem C8_mapped_loopback:
  assumes "trim s \<noteq> []" "\<not> isDataUrl s" "parse s = Some u"
    and "toLowerCase (protocol u) = str ''http:'' \<or> toLowerCase (protocol u) = str ''https:''"
    and "hostname u = str ''[::ffff:7f00:1]'' \<or> hostname u = str ''[::ffff:127.0.0.1]'' \<or>
         hostname u = str ''::ffff:127.0.0.1''"
    and "allowPrivateNetwork options = None \<or> allowPrivateNetwork options = Some False"
  shows "\<not> isPrivateIp (str ''::ffff:127.0.0.1'') \<and>
         parseIpv4 (str ''::ffff:127.0.0.1'') = None \<and>
         str ''::ffff:127.0.0.1'' \<noteq> str ''::1'' \<and>
         \<not> startsWith (str ''::ffff:127.0.0.1'') (str ''fc'') \<and>
         \<not> startsWith (str ''::ffff:127.0.0.1'') (str ''fd'') \<and>
         \<not> startsWith (str ''::ffff:127.0.0.1'') (str ''fe80:'') \<and>
         \<not> isPrivateIp (hostname u) \<and>
         fst (resolveImage parse t (JStr s) options w) \<noteq> Inl BlockedBySsrfPolicy \<and>
         (\<exists>rest. snd (resolveImage parse t (JStr s) options w) = w @ Call (image_request u) # rest)"
proof -
  from assms(5) have n: "\<not> isPrivateIp (hostname u)"
    using mapped_loopback_public mapped_loopback_forms by auto
  from assms(1-4) n have
    "fst (resolveImage parse t (JStr s) options w) \<noteq> Inl BlockedBySsrfPolicy \<and>
     fst (resolveImage parse t (JStr s) options w) \<noteq> Inl UnsupportedScheme \<and>
     (\<exists>rest. snd (resolveImage parse t (JStr s) options w) = w @ Call (image_request u) # rest)"
    by (rule resolveImage_fetches)
  with n mapped_loopback_public mapped_loopback_reasons(2,4-7) show ?thesis
    by (intro conjI) blast+
qed

theorem C8_mapped_loopback_witness:
  "\<not> isPrivateIp (str ''::ffff:127.0.0.1'') \<and>
   \<not> isPrivateIp (str ''[::ffff:7f00:1]'') \<and>
   resolveImage sample_parse dead_transport (JStr (str ''http://[::ffff:127.0.0.1]/a.png''))
     \<lparr>timeoutMs = None, maxBytes = None, allowPrivateNetwork = Some False\<rparr> idle_world =
     (Inl TransportFailure,
      [Call \<lparr>req_method = str ''GET'', req_url = str ''http://[::ffff:7f00:1]/a.png'',
              req_headers = [(str ''Accept'', str ''image/*'')], req_body = NoBody\<rparr>])"
proof -
  let ?s = "str ''http://[::ffff:127.0.0.1]/a.png''"
  let ?u = "\<lparr>protocol = str ''http:'', hostname = str ''[::ffff:7f00:1]'',
             href = str ''http://[::ffff:7f00:1]/a.png''\<rparr>"
  let ?o = "\<lparr>timeoutMs = None, maxBytes = None, allowPrivateNetwork = Some False\<rparr>"
  have p: "sample_parse ?s = Some ?u"
    by (simp add: sample_parse_def str_def)
  have d: "\<not> isDataUrl ?s"
    by (simp add: isDataUrl_def startsWith_def str_def)
  have h: "toLowerCase (protocol ?u) = str ''http:'' \<or> toLowerCase (protocol ?u) = str ''https:''"
    by (simp add: toLowerCase_def str_def)
  have c: "\<not> isPrivateIp (str ''::ffff:127.0.0.1'') \<and> \<not> isPrivateIp (hostname ?u) \<and>
         fst (resolveImage sample_parse dead_transport (JStr ?s) ?o idle_world) \<noteq> Inl BlockedBySsrfPolicy"
    using C8_mapped_loopback [where s = ?s and parse = sample_parse and u = ?u and options = ?o
        and t = dead_transport and w = idle_world, OF trim_sample6 d p h]
    by simp
  then have a: "assertAllowedRemoteUrl ?u False = Inr ()"
    using h by (simp add: assertAllowedRemoteUrl_def Let_def)
  have "resolveImage sample_parse dead_transport (JStr ?s) ?o idle_world =
     (Inl TransportFailure,
      [Call \<lparr>req_method = str ''GET'', req_url = str ''http://[::ffff:7f00:1]/a.png'',
              req_headers = [(str ''Accept'', str ''image/*'')], req_body = NoBody\<rparr>])"
    using trim_sample6 d p a
    by (simp add: resolveImage_def Let_def fetchWithTimeout_def dead_transport_def idle_world_def)
  with c show ?thesis by simp
qed

text \<open>
  C9 (as the code has it). In passthrough mode \<open>prepareImagesForUpstream\<close> returns, in
  their order, exactly the entries that are strings and are not empty after white space
  is trimmed. It does so whatever the URL parser and the transport are, and it leaves the
  world unchanged: \<open>resolveImage\<close> is never called, so neither the SSRF guard nor the
  byte ceiling nor the time budget applies.
\<close>

theorem C9_passthrough:
  assumes "mode options = Passthrough"
  shows "\<exists>out. prepareImagesForUpstream parse t (JArr us) options w = (Inr out, w) \<and>
               map JStr out = filter is_nonblank_string us"
proof (cases "us = []")
  case True
  with assms show ?thesis by (simp add: prepareImagesForUpstream_def)
next
  case False
  with assms show ?thesis
    by (simp add: prepareImagesForUpstream_def map_filter_nonblank)
qed

theorem C9_passthrough_witness:
  "\<exists>out. prepareImagesForUpstream sample_parse dead_transport
            (JArr [JStr (str ''http://192.168.1.5/a.png''), JNum (NumDecimal False 7 1), JStr (str '' ''), JStr (str ''x'')])
            \<lparr>timeoutMs = None, maxBytes = None, allowPrivateNetwork = None, mode = Passthrough,
             base64Format = None\<rparr> idle_world = (Inr out, idle_world) \<and>
         map JStr out = [JStr (str ''http://192.168.1.5/a.png''), JStr (str ''x'')]"
  using C9_passthrough [of "\<lparr>timeoutMs = None, maxBytes = None, allowPrivateNetwork = None,
      mode = Passthrough, base64Format = None\<rparr>" sample_parse dead_transport
      "[JStr (str ''http://192.168.1.5/a.png''), JNum (NumDecimal False 7 1), JStr (str '' ''), JStr (str ''x'')]" idle_world]
  by (simp add: is_nonblank_string_def trim_def str_def is_space_def)

text \<open>
  The claim as stated fails: a string of one blank is a non-empty string and is dropped.
\<close>

theorem C9_counterexample:
  "prepareImagesForUpstream sample_parse dead_transport (JArr [JStr (str '' '')])
     \<lparr>timeoutMs = None, maxBytes = None, allowPrivateNetwork = None, mode = Passthrough,
      base64Format = None\<rparr> idle_world = (Inr [], idle_world) \<and>
   filter is_nonempty_string [JStr (str '' '')] = [JStr (str '' '')]"
  by (simp add: prepareImagesForUpstream_def List.map_filter_simps is_nonempty_string_def trim_def
      str_def is_space_def)

text \<open>
  C10. Extraction probes the top-level \<open>output_images\<close> array twice, first and fourth in
  its probe order. So when that field is an array \<open>arr\<close>, the references it yields
  (\<open>refs_of arr\<close>, one per valid entry, in order) occur twice in the output, and when
  the payload has no other field the output is exactly these references twice.
\<close>

theorem C10_output_images_twice:
  assumes "opt_prop payload (str ''output_images'') = Some (JArr arr)"
  shows "(\<exists>mid rest. extractImages payload = refs_of arr @ mid @ refs_of arr @ rest) \<and>
         length (refs_of arr) = length (filter valid_ref arr) \<and>
         (payload = Some (JObj [(str ''output_images'', JArr arr)])
          \<longrightarrow> extractImages payload = refs_of arr @ refs_of arr)"
proof (intro conjI impI)
  let ?mid = "filter keep_extracted
      (tryArray (opt_prop (opt_prop payload (str ''output'')) (str ''output_images'')) @
       tryArray (opt_prop (opt_prop payload (str ''output'')) (str ''images'')))"
  let ?rest = "filter keep_extracted
      (tryArray (opt_prop payload (str ''images'')) @
       tryArray (opt_prop payload (str ''data'')) @
       pushAny (opt_prop payload (str ''output_image'')) @
       pushAny (opt_prop (opt_prop payload (str ''output'')) (str ''output_image'')) @
       pushAny (opt_prop (opt_prop payload (str ''output'')) (str ''image'')))"
  have "extractImages payload = refs_of arr @ ?mid @ refs_of arr @ ?rest"
    using assms by (simp add: extractImages_def tryArray_refs)
  then show "\<exists>mid rest. extractImages payload = refs_of arr @ mid @ refs_of arr @ rest"
    by blast
  show "length (refs_of arr) = length (filter valid_ref arr)"
    by (rule length_refs_of)
  assume "payload = Some (JObj [(str ''output_images'', JArr arr)])"
  then show "extractImages payload = refs_of arr @ refs_of arr"
    by (simp add: extractImages_def tryArray_refs tryArray_None pushAny_None opt_prop_def
        get_prop_def str_def)
qed

theorem C10_output_images_twice_witness:
  "extractImages (Some (JObj [(str ''output_images'',
       JArr [JStr (str ''http://a/1.png''), JObj [(str ''url'', JStr (str ''http://a/2.png''))]])])) =
   [\<lparr>ext_url = Some (str ''http://a/1.png''), b64_json = None\<rparr>,
    \<lparr>ext_url = Some (str ''http://a/2.png''), b64_json = None\<rparr>,
    \<lparr>ext_url = Some (str ''http://a/1.png''), b64_json = None\<rparr>,
    \<lparr>ext_url = Some (str ''http://a/2.png''), b64_json = None\<rparr>]"
proof -
  let ?arr = "[JStr (str ''http://a/1.png''), JObj [(str ''url'', JStr (str ''http://a/2.png''))]]"
  let ?p = "Some (JObj [(str ''output_images'', JArr ?arr)])"
  have o: "opt_prop ?p (str ''output_images'') = Some (JArr ?arr)"
    by (simp add: opt_prop_def get_prop_def)
  have r: "refs_of ?arr =
     [\<lparr>ext_url = Some (str ''http://a/1.png''), b64_json = None\<rparr>,
      \<lparr>ext_url = Some (str ''http://a/2.png''), b64_json = None\<rparr>]"
    by (simp add: refs_of_def pushAny_def truthy_def string_prop_def get_prop_def keep_extracted_def
        startsWith_def trim_def str_def is_space_def Let_def)
  from C10_output_images_twice [OF o] have "extractImages ?p = refs_of ?arr @ refs_of ?arr"
    by blast
  then show ?thesis by (simp only: r append.simps)
qed

end
